theory Spec2Isabelle
  imports Main "HOL-Library.Multiset" "HOL-Library.Product_Lexorder"
begin

section \<open>Data model\<close>

text \<open>
  The rules engine of the 2048 game lives in \<^verbatim>\<open>src/app/(tabs)/index.tsx\<close> (and, verbatim
  again, in \<^verbatim>\<open>src/app/index.tsx\<close>).  A TypeScript \<^verbatim>\<open>number\<close> that holds an identifier, a tile
  value, a coordinate or a score is modelled as an unbounded \<^typ>\<open>int\<close>; fractions, NaN and the
  loss of precision beyond 2^53 are outside the model.

  The fields \<^verbatim>\<open>id\<close> and \<^verbatim>\<open>value\<close> of the source's \<^verbatim>\<open>Tile\<close> are called \<open>tile_id\<close> and
  \<open>tile_value\<close> here, because \<open>id\<close> is the identity function of HOL and \<open>value\<close> is a
  command of Isabelle.
\<close>

datatype Direction = Up | Down | Left | Right

record Tile =
  tile_id :: int
  tile_value :: int
  row :: int
  col :: int
  isNew :: bool
  justMerged :: bool

definition BOARD_SIZE :: int where
  "BOARD_SIZE = 4"

definition INITIAL_TILES :: nat where
  "INITIAL_TILES = 2"

text \<open>
  \<^verbatim>\<open>MoveResult\<close> of the source.  The same record is the accumulator of the loops of
  \<^verbatim>\<open>moveTiles\<close> (the variables \<^verbatim>\<open>updatedTiles\<close>, \<^verbatim>\<open>moved\<close>, \<^verbatim>\<open>scoreGained\<close>).
\<close>

record MoveResult =
  tiles :: "Tile list"
  moved :: bool
  scoreGained :: int

text \<open>The value \<^verbatim>\<open>{ tiles, moved, score }\<close> returned by \<^verbatim>\<open>slideRow\<close> and \<^verbatim>\<open>slideColumn\<close>.\<close>

record LineResult =
  line_tiles :: "Tile list"
  line_moved :: bool
  line_score :: int

text \<open>
  The local variables of the scan loop of \<^verbatim>\<open>slideRow\<close> and \<^verbatim>\<open>slideColumn\<close>:
  \<^verbatim>\<open>result\<close>, \<^verbatim>\<open>moved\<close>, \<^verbatim>\<open>score\<close> and \<^verbatim>\<open>targetIndex\<close>.
\<close>

record LineScan =
  result :: "Tile list"
  scan_moved :: bool
  scan_score :: int
  targetIndex :: int

text \<open>
  The only way the engine can fail: an array of the 4 rows is indexed with a row that it
  does not have, and the write to a column of \<^verbatim>\<open>undefined\<close> throws a \<^verbatim>\<open>TypeError\<close>.
\<close>

datatype error = TypeError

text \<open>
  The 4 x 4 arrays \<^verbatim>\<open>grid\<close> and \<^verbatim>\<open>occupancy\<close> are maps from (row, column) to the cell's
  content.  A write to a row outside \<open>[0, 4)\<close> throws; a write to a column outside \<open>[0, 4)\<close>
  of an existing row extends that JavaScript array (or sets a property on it) and is never
  read back, because every read is guarded by \<^verbatim>\<open>BOARD_SIZE\<close>.
\<close>

type_synonym Coordinates = "int \<times> int"

type_synonym Grid = "Coordinates \<Rightarrow> Tile option"

definition indices :: "int list" where
  "indices = [0 .. BOARD_SIZE - 1]"

text \<open>The cells in the order of the nested loops \<^verbatim>\<open>for row ... for col ...\<close>.\<close>

definition cells :: "Coordinates list" where
  "cells = concat (map (\<lambda>r. map (\<lambda>c. (r, c)) indices) indices)"

section \<open>Board queries\<close>

fun markOccupied :: "Tile list \<Rightarrow> (Coordinates \<Rightarrow> bool) \<Rightarrow> error + (Coordinates \<Rightarrow> bool)" where
  "markOccupied [] occupancy = Inr occupancy"
| "markOccupied (tile # rest) occupancy =
     (if 0 \<le> row tile \<and> row tile < BOARD_SIZE
      then markOccupied rest (occupancy((row tile, col tile) := True))
      else Inl TypeError)"

definition getEmptyPositions :: "Tile list \<Rightarrow> error + Coordinates list" where
  "getEmptyPositions ts =
     (case markOccupied ts (\<lambda>_. False) of
        Inl e \<Rightarrow> Inl e
      | Inr occupancy \<Rightarrow> Inr (filter (\<lambda>p. \<not> occupancy p) cells))"

definition containsTargetTile :: "Tile list \<Rightarrow> int \<Rightarrow> bool" where
  "containsTargetTile ts target = list_ex (\<lambda>tile. tile_value tile \<ge> target) ts"

fun placeTiles :: "Tile list \<Rightarrow> Grid \<Rightarrow> error + Grid" where
  "placeTiles [] grid = Inr grid"
| "placeTiles (tile # rest) grid =
     (if 0 \<le> row tile \<and> row tile < BOARD_SIZE
      then placeTiles rest (grid((row tile, col tile) \<mapsto> tile))
      else Inl TypeError)"

definition emptyGrid :: Grid where
  "emptyGrid = (\<lambda>_. None)"

text \<open>The body of the nested loops of \<^verbatim>\<open>hasAvailableMoves\<close> at one cell.\<close>

definition cellHasMove :: "Grid \<Rightarrow> Coordinates \<Rightarrow> bool" where
  "cellHasMove grid p =
     (case p of (r, c) \<Rightarrow>
        (case grid (r, c) of
           None \<Rightarrow> False
         | Some tile \<Rightarrow>
             (let right = (if c + 1 < BOARD_SIZE then grid (r, c + 1) else None);
                  down = (if r + 1 < BOARD_SIZE then grid (r + 1, c) else None)
              in (case right of None \<Rightarrow> False | Some t \<Rightarrow> tile_value t = tile_value tile)
               \<or> (case down of None \<Rightarrow> False | Some t \<Rightarrow> tile_value t = tile_value tile))))"

definition hasAvailableMoves :: "Tile list \<Rightarrow> error + bool" where
  "hasAvailableMoves ts =
     (if int (length ts) < BOARD_SIZE * BOARD_SIZE then Inr True
      else (case placeTiles ts emptyGrid of
              Inl e \<Rightarrow> Inl e
            | Inr grid \<Rightarrow> Inr (list_ex (cellHasMove grid) cells)))"

section \<open>Line collapse\<close>

text \<open>
  One iteration of the scan loop of \<^verbatim>\<open>slideRow\<close> at \<^verbatim>\<open>tile = sorted[i]\<close>; \<open>merge\<close> is the
  test \<^verbatim>\<open>nextTile && nextTile.value === tile.value\<close>.  The tiles of a line are distinct
  objects (each is the clone stored in one cell of the grid), so the in-place updates of
  the source are updates of the record.
\<close>

definition slideRow_body :: "Direction \<Rightarrow> int \<Rightarrow> Tile \<Rightarrow> bool \<Rightarrow> LineScan \<Rightarrow> LineScan" where
  "slideRow_body direction r tile merge st =
     (let targetCol = (if direction = Left then targetIndex st
                       else BOARD_SIZE - 1 - targetIndex st);
          tile1 = (if merge then tile\<lparr>tile_value := tile_value tile * 2, justMerged := True\<rparr>
                   else tile\<lparr>justMerged := False\<rparr>);
          score1 = (if merge then scan_score st + tile_value tile1 else scan_score st);
          moved1 = (if merge then True else scan_moved st);
          moved2 = (if col tile1 \<noteq> targetCol \<or> row tile1 \<noteq> r then True else moved1)
      in \<lparr>result = result st @ [tile1\<lparr>col := targetCol, row := r\<rparr>],
          scan_moved = moved2, scan_score = score1, targetIndex = targetIndex st + 1\<rparr>)"

text \<open>
  The loop \<^verbatim>\<open>for (i = 0; i < sorted.length; i += 1)\<close> over the tiles not yet scanned; a merge
  does a second \<^verbatim>\<open>i += 1\<close>, which skips \<^verbatim>\<open>nextTile\<close>.
\<close>

fun slideRow_loop :: "Direction \<Rightarrow> int \<Rightarrow> Tile list \<Rightarrow> LineScan \<Rightarrow> LineScan" where
  "slideRow_loop direction r [] st = st"
| "slideRow_loop direction r [tile] st = slideRow_body direction r tile False st"
| "slideRow_loop direction r (tile # nextTile # rest) st =
     (if tile_value nextTile = tile_value tile
      then slideRow_loop direction r rest (slideRow_body direction r tile True st)
      else slideRow_loop direction r (nextTile # rest) (slideRow_body direction r tile False st))"

definition scanStart :: LineScan where
  "scanStart = \<lparr>result = [], scan_moved = False, scan_score = 0, targetIndex = 0\<rparr>"

text \<open>
  \<^verbatim>\<open>Array.prototype.sort\<close> is stable, and so is \<^const>\<open>sort_key\<close>: the comparator
  \<^verbatim>\<open>a.col - b.col\<close> is the key \<open>col\<close>, and \<^verbatim>\<open>b.col - a.col\<close> is the key \<open>- col\<close>.
\<close>

definition slideRow :: "Tile list \<Rightarrow> int \<Rightarrow> Direction \<Rightarrow> LineResult" where
  "slideRow rowTiles r direction =
     (let sorted = (if direction = Left then sort_key col rowTiles
                    else sort_key (\<lambda>t. - col t) rowTiles);
          st = slideRow_loop direction r sorted scanStart
      in \<lparr>line_tiles = result st, line_moved = scan_moved st, line_score = scan_score st\<rparr>)"

definition slideColumn_body :: "Direction \<Rightarrow> int \<Rightarrow> Tile \<Rightarrow> bool \<Rightarrow> LineScan \<Rightarrow> LineScan" where
  "slideColumn_body direction c tile merge st =
     (let targetRow = (if direction = Up then targetIndex st
                       else BOARD_SIZE - 1 - targetIndex st);
          tile1 = (if merge then tile\<lparr>tile_value := tile_value tile * 2, justMerged := True\<rparr>
                   else tile\<lparr>justMerged := False\<rparr>);
          score1 = (if merge then scan_score st + tile_value tile1 else scan_score st);
          moved1 = (if merge then True else scan_moved st);
          moved2 = (if row tile1 \<noteq> targetRow \<or> col tile1 \<noteq> c then True else moved1)
      in \<lparr>result = result st @ [tile1\<lparr>row := targetRow, col := c\<rparr>],
          scan_moved = moved2, scan_score = score1, targetIndex = targetIndex st + 1\<rparr>)"

fun slideColumn_loop :: "Direction \<Rightarrow> int \<Rightarrow> Tile list \<Rightarrow> LineScan \<Rightarrow> LineScan" where
  "slideColumn_loop direction c [] st = st"
| "slideColumn_loop direction c [tile] st = slideColumn_body direction c tile False st"
| "slideColumn_loop direction c (tile # nextTile # rest) st =
     (if tile_value nextTile = tile_value tile
      then slideColumn_loop direction c rest (slideColumn_body direction c tile True st)
      else slideColumn_loop direction c (nextTile # rest)
             (slideColumn_body direction c tile False st))"

definition slideColumn :: "Tile list \<Rightarrow> int \<Rightarrow> Direction \<Rightarrow> LineResult" where
  "slideColumn columnTiles c direction =
     (let sorted = (if direction = Up then sort_key row columnTiles
                    else sort_key (\<lambda>t. - row t) columnTiles);
          st = slideColumn_loop direction c sorted scanStart
      in \<lparr>line_tiles = result st, line_moved = scan_moved st, line_score = scan_score st\<rparr>)"

section \<open>Move orchestrator\<close>

definition clearFlags :: "Tile \<Rightarrow> Tile" where
  "clearFlags tile = tile\<lparr>isNew := False, justMerged := False\<rparr>"

text \<open>The tiles found in row \<open>r\<close> by the inner loop over the columns, and likewise for a column.\<close>

definition rowTilesOf :: "Grid \<Rightarrow> int \<Rightarrow> Tile list" where
  "rowTilesOf grid r = List.map_filter (\<lambda>c. grid (r, c)) indices"

definition columnTilesOf :: "Grid \<Rightarrow> int \<Rightarrow> Tile list" where
  "columnTilesOf grid c = List.map_filter (\<lambda>r. grid (r, c)) indices"

text \<open>One iteration of the outer loop over the rows (left, right) or the columns (up, down).\<close>

definition rowStep :: "Grid \<Rightarrow> Direction \<Rightarrow> MoveResult \<Rightarrow> int \<Rightarrow> MoveResult" where
  "rowStep grid direction acc r =
     (let rowTiles = rowTilesOf grid r
      in if length rowTiles = 0 then acc
         else (let res = slideRow rowTiles r direction
               in \<lparr>tiles = tiles acc @ line_tiles res,
                   moved = (moved acc \<or> line_moved res),
                   scoreGained = scoreGained acc + line_score res\<rparr>))"

definition columnStep :: "Grid \<Rightarrow> Direction \<Rightarrow> MoveResult \<Rightarrow> int \<Rightarrow> MoveResult" where
  "columnStep grid direction acc c =
     (let columnTiles = columnTilesOf grid c
      in if length columnTiles = 0 then acc
         else (let res = slideColumn columnTiles c direction
               in \<lparr>tiles = tiles acc @ line_tiles res,
                   moved = (moved acc \<or> line_moved res),
                   scoreGained = scoreGained acc + line_score res\<rparr>))"

definition moveStart :: MoveResult where
  "moveStart = \<lparr>tiles = [], moved = False, scoreGained = 0\<rparr>"

text \<open>
  The final sort compares the row, then the column, then the identifier: the key is the
  triple in lexicographic order.
\<close>

definition canonicalKey :: "Tile \<Rightarrow> int \<times> int \<times> int" where
  "canonicalKey t = (row t, col t, tile_id t)"

definition moveTiles :: "Tile list \<Rightarrow> Direction \<Rightarrow> error + MoveResult" where
  "moveTiles ts direction =
     (let clones = map clearFlags ts
      in case placeTiles clones emptyGrid of
           Inl e \<Rightarrow> Inl e
         | Inr grid \<Rightarrow>
             (let acc = (if direction = Left \<or> direction = Right
                         then foldl (rowStep grid direction) moveStart indices
                         else foldl (columnStep grid direction) moveStart indices)
              in if \<not> moved acc
                 then Inr \<lparr>tiles = map clearFlags ts, moved = False, scoreGained = 0\<rparr>
                 else Inr \<lparr>tiles = sort_key canonicalKey (tiles acc), moved = True,
                          scoreGained = scoreGained acc\<rparr>))"

section \<open>Tile spawner\<close>

text \<open>
  The two random draws are arguments: \<open>pick\<close> is \<^verbatim>\<open>Math.floor(Math.random() * n)\<close> for the
  \<open>n\<close> empty cells (the source always has \<open>pick < n\<close>; reading \<^verbatim>\<open>choice.row\<close> of a missing
  element would throw), and \<open>lt09\<close> is the test \<^verbatim>\<open>Math.random() < 0.9\<close>.  The counter
  \<^verbatim>\<open>tileIdRef.current\<close> behind \<^verbatim>\<open>getId\<close> is passed in and returned.
\<close>

definition addRandomTile :: "Tile list \<Rightarrow> int \<Rightarrow> nat \<Rightarrow> bool \<Rightarrow> error + (Tile list \<times> int)" where
  "addRandomTile ts idRef pick lt09 =
     (case getEmptyPositions ts of
        Inl e \<Rightarrow> Inl e
      | Inr emptyPositions \<Rightarrow>
          if length emptyPositions = 0 then Inr (ts, idRef)
          else if pick < length emptyPositions
          then (let choice = emptyPositions ! pick;
                    v = (if lt09 then 2 else 4)
                in Inr (ts @ [\<lparr>tile_id = idRef + 1, tile_value = v, row = fst choice,
                               col = snd choice, isNew = True, justMerged = False\<rparr>],
                        idRef + 1))
          else Inl TypeError)"

text \<open>
  \<^verbatim>\<open>generateInitialTiles\<close>: the loop \<^verbatim>\<open>for (i = 0; i < INITIAL_TILES; i += 1)\<close>; the
  draws of iteration \<open>i\<close> are \<open>rnd i\<close>.
\<close>

function generateInitialTiles_loop ::
  "nat \<Rightarrow> Tile list \<Rightarrow> int \<Rightarrow> (nat \<Rightarrow> nat \<times> bool) \<Rightarrow> error + (Tile list \<times> int)" where
  "generateInitialTiles_loop i ts idRef rnd =
     (if i < INITIAL_TILES
      then (case getEmptyPositions ts of
              Inl e \<Rightarrow> Inl e
            | Inr emptyPositions \<Rightarrow>
                if length emptyPositions = 0 then Inr (ts, idRef)
                else if fst (rnd i) < length emptyPositions
                then generateInitialTiles_loop (i + 1)
                       (ts @ [\<lparr>tile_id = idRef + 1,
                               tile_value = (if snd (rnd i) then 2 else 4),
                               row = fst (emptyPositions ! fst (rnd i)),
                               col = snd (emptyPositions ! fst (rnd i)),
                               isNew = True, justMerged = False\<rparr>])
                       (idRef + 1) rnd
                else Inl TypeError)
      else Inr (ts, idRef))"
  by pat_completeness auto
termination
  by (relation "measure (\<lambda>(i, ts, idRef, rnd). INITIAL_TILES - i)") auto

declare generateInitialTiles_loop.simps [simp del]

definition generateInitialTiles :: "int \<Rightarrow> (nat \<Rightarrow> nat \<times> bool) \<Rightarrow> error + (Tile list \<times> int)" where
  "generateInitialTiles idRef rnd = generateInitialTiles_loop 0 [] idRef rnd"

section \<open>Game session\<close>

text \<open>
  The state of \<^verbatim>\<open>HomeScreen\<close> that the rules engine reads and writes.  \<^verbatim>\<open>handleMove\<close> is one
  synchronous transition: the updater passed to \<^verbatim>\<open>setTiles\<close> runs once, and the nested
  \<^verbatim>\<open>setScore\<close>, \<^verbatim>\<open>setBestScore\<close>, \<^verbatim>\<open>setHasWon\<close> and \<^verbatim>\<open>setGameOver\<close> take effect with it.
\<close>

record Session =
  s_tiles :: "Tile list"
  score :: int
  bestScore :: int
  gameOver :: bool
  hasWon :: bool
  tileIdRef :: int

definition handleMove :: "Session \<Rightarrow> Direction \<Rightarrow> nat \<Rightarrow> bool \<Rightarrow> error + Session" where
  "handleMove s direction pick lt09 =
     (if gameOver s then Inr s
      else (case moveTiles (s_tiles s) direction of
              Inl e \<Rightarrow> Inl e
            | Inr res \<Rightarrow>
                if \<not> moved res then Inr s
                else (case addRandomTile (tiles res) (tileIdRef s) pick lt09 of
                        Inl e \<Rightarrow> Inl e
                      | Inr (withNewTile, idRef') \<Rightarrow>
                          (let nextScore = score s + scoreGained res;
                               reached2048 = containsTargetTile withNewTile 2048
                           in case hasAvailableMoves withNewTile of
                                Inl e \<Rightarrow> Inl e
                              | Inr available \<Rightarrow>
                                  Inr \<lparr>s_tiles = withNewTile, score = nextScore,
                                       bestScore = max (bestScore s) nextScore,
                                       gameOver = (\<not> available),
                                       hasWon = (hasWon s \<or> reached2048),
                                       tileIdRef = idRef'\<rparr>))))"

text \<open>
  The session as \<^verbatim>\<open>useState\<close> creates it, and \<^verbatim>\<open>handleNewGame\<close>, which sets the counter to 0
  before it draws the new board and keeps the best score.  The list of recent runs that
  \<^verbatim>\<open>handleNewGame\<close> also maintains is not part of the rules engine and is left out.
\<close>

definition initialSession :: "(nat \<Rightarrow> nat \<times> bool) \<Rightarrow> error + Session" where
  "initialSession rnd =
     (case generateInitialTiles 0 rnd of
        Inl e \<Rightarrow> Inl e
      | Inr (ts, idRef) \<Rightarrow>
          Inr \<lparr>s_tiles = ts, score = 0, bestScore = 0, gameOver = False, hasWon = False,
               tileIdRef = idRef\<rparr>)"

definition handleNewGame :: "Session \<Rightarrow> (nat \<Rightarrow> nat \<times> bool) \<Rightarrow> error + Session" where
  "handleNewGame s rnd =
     (case generateInitialTiles 0 rnd of
        Inl e \<Rightarrow> Inl e
      | Inr (ts, idRef) \<Rightarrow>
          Inr \<lparr>s_tiles = ts, score = 0, bestScore = bestScore s, gameOver = False,
               hasWon = False, tileIdRef = idRef\<rparr>)"

section \<open>Vocabulary of the properties\<close>

text \<open>A well-formed board: every tile inside the 4 x 4 grid, no two tiles on one cell.\<close>

definition coords :: "Tile \<Rightarrow> Coordinates" where
  "coords t = (row t, col t)"

definition inRange :: "Tile \<Rightarrow> bool" where
  "inRange t = (0 \<le> row t \<and> row t < BOARD_SIZE \<and> 0 \<le> col t \<and> col t < BOARD_SIZE)"

definition wellFormed :: "Tile list \<Rightarrow> bool" where
  "wellFormed ts = (list_all inRange ts \<and> distinct (map coords ts))"

text \<open>Two tiles are orthogonal neighbours when their cells share an edge.\<close>

definition adjacent :: "Tile \<Rightarrow> Tile \<Rightarrow> bool" where
  "adjacent a b = (\<bar>row a - row b\<bar> + \<bar>col a - col b\<bar> = 1)"

text \<open>
  The boards that the initial setup, \<^verbatim>\<open>moveTiles\<close> and \<^verbatim>\<open>addRandomTile\<close> can produce, and the
  sessions that the initial state, \<^verbatim>\<open>handleMove\<close> and \<^verbatim>\<open>handleNewGame\<close> can produce, for
  any random draws.
\<close>

inductive reachableBoard :: "Tile list \<Rightarrow> bool" where
  initial: "generateInitialTiles idRef rnd = Inr (ts, idRef') \<Longrightarrow> reachableBoard ts"
| move: "reachableBoard ts \<Longrightarrow> moveTiles ts d = Inr res \<Longrightarrow> reachableBoard (tiles res)"
| spawn: "reachableBoard ts \<Longrightarrow> addRandomTile ts idRef pick lt09 = Inr (ts', idRef')
          \<Longrightarrow> reachableBoard ts'"

inductive reachableSession :: "Session \<Rightarrow> bool" where
  start: "initialSession rnd = Inr s \<Longrightarrow> reachableSession s"
| step: "reachableSession s \<Longrightarrow> handleMove s d pick lt09 = Inr s' \<Longrightarrow> reachableSession s'"
| reset: "reachableSession s \<Longrightarrow> handleNewGame s rnd = Inr s' \<Longrightarrow> reachableSession s'"

code_pred reachableBoard .

code_pred reachableSession .

text \<open>
  A scan that starts at target slot \<open>k\<close> with nothing pushed yet, and the composition of two
  stretches of a scan: what the second stretch pushes and scores comes after the first.
\<close>

definition scanAt :: "int \<Rightarrow> LineScan" where
  "scanAt k = \<lparr>result = [], scan_moved = False, scan_score = 0, targetIndex = k\<rparr>"

definition extend :: "LineScan \<Rightarrow> LineScan \<Rightarrow> LineScan" where
  "extend st u = \<lparr>result = result st @ result u, scan_moved = (scan_moved st \<or> scan_moved u),
                  scan_score = scan_score st + scan_score u, targetIndex = targetIndex u\<rparr>"

text \<open>
  The line collapse in the words of the specification (section 4.1, steps 2 to 4), written
  apart from the loops of the source so that the two can be compared.  Walk the sorted
  tiles; \<open>target k\<close> is the cell of the \<open>k\<close>-th slot counted from the edge the line moves to.
  A tile whose successor has the same value is put out with its value doubled and
  \<open>justMerged\<close> set, the doubled value is added to the score, and the successor is left
  out; any other tile is put out with \<open>justMerged\<close> cleared.  Each tile put out takes the
  next slot.  The line has moved when a merge happened or a tile was not on its slot.
\<close>

fun specLineCollapse :: "(int \<Rightarrow> Coordinates) \<Rightarrow> int \<Rightarrow> Tile list \<Rightarrow> LineResult" where
  "specLineCollapse target k [] = \<lparr>line_tiles = [], line_moved = False, line_score = 0\<rparr>"
| "specLineCollapse target k [t] =
     \<lparr>line_tiles = [t\<lparr>justMerged := False, row := fst (target k), col := snd (target k)\<rparr>],
      line_moved = (coords t \<noteq> target k), line_score = 0\<rparr>"
| "specLineCollapse target k (t # n # rest) =
     (if tile_value n = tile_value t
      then \<lparr>line_tiles = t\<lparr>tile_value := 2 * tile_value t, justMerged := True,
                            row := fst (target k), col := snd (target k)\<rparr>
                          # line_tiles (specLineCollapse target (k + 1) rest),
            line_moved = True,
            line_score = 2 * tile_value t + line_score (specLineCollapse target (k + 1) rest)\<rparr>
      else \<lparr>line_tiles = t\<lparr>justMerged := False, row := fst (target k), col := snd (target k)\<rparr>
                          # line_tiles (specLineCollapse target (k + 1) (n # rest)),
            line_moved = (coords t \<noteq> target k \<or> line_moved (specLineCollapse target (k + 1) (n # rest))),
            line_score = line_score (specLineCollapse target (k + 1) (n # rest))\<rparr>)"

text \<open>
  The sorted tiles of a line cut into the groups that one step of the collapse handles: a
  tile alone, or a tile together with its successor of the same value.
\<close>

fun mergeBlocks :: "Tile list \<Rightarrow> Tile list list" where
  "mergeBlocks [] = []"
| "mergeBlocks [t] = [[t]]"
| "mergeBlocks (t # n # rest) =
     (if tile_value n = tile_value t then [t, n] # mergeBlocks rest
      else [t] # mergeBlocks (n # rest))"

section \<open>Vocabulary of the proofs\<close>

text \<open>
  The tiles of a line stand where the scan would put them, from target slot \<open>k\<close> on; the
  cells that a collapsed line of \<open>n\<close> tiles fills; and a scan state whose pushed tiles fill
  those cells so far.
\<close>

primrec inPlaceRow :: "Direction \<Rightarrow> int \<Rightarrow> int \<Rightarrow> Tile list \<Rightarrow> bool" where
  "inPlaceRow d r k [] = True"
| "inPlaceRow d r k (t # ts) =
     (row t = r \<and> col t = (if d = Left then k else BOARD_SIZE - 1 - k) \<and> inPlaceRow d r (k + 1) ts)"

definition rowSlots :: "Direction \<Rightarrow> int \<Rightarrow> nat \<Rightarrow> Coordinates list" where
  "rowSlots d r n = map (\<lambda>j. (r, if d = Left then int j else BOARD_SIZE - 1 - int j)) [0..<n]"

definition placedRow :: "Direction \<Rightarrow> int \<Rightarrow> LineScan \<Rightarrow> bool" where
  "placedRow d r st = (targetIndex st = int (length (result st))
                      \<and> map coords (result st) = rowSlots d r (length (result st)))"

primrec inPlaceColumn :: "Direction \<Rightarrow> int \<Rightarrow> int \<Rightarrow> Tile list \<Rightarrow> bool" where
  "inPlaceColumn d c k [] = True"
| "inPlaceColumn d c k (t # ts) =
     (col t = c \<and> row t = (if d = Up then k else BOARD_SIZE - 1 - k) \<and> inPlaceColumn d c (k + 1) ts)"

definition columnSlots :: "Direction \<Rightarrow> int \<Rightarrow> nat \<Rightarrow> Coordinates list" where
  "columnSlots d c n = map (\<lambda>j. (if d = Up then int j else BOARD_SIZE - 1 - int j, c)) [0..<n]"

definition placedColumn :: "Direction \<Rightarrow> int \<Rightarrow> LineScan \<Rightarrow> bool" where
  "placedColumn d c st = (targetIndex st = int (length (result st))
                      \<and> map coords (result st) = columnSlots d c (length (result st)))"

text \<open>Every tile of the grid is stored at its own coordinates.\<close>

definition gridOK :: "Grid \<Rightarrow> bool" where
  "gridOK g = (\<forall>p t. g p = Some t \<longrightarrow> coords t = p)"

text \<open>
  The line with index \<open>i\<close> that \<^verbatim>\<open>moveTiles\<close> reads from the grid for a direction, and
  what the collapse makes of it.
\<close>

definition lineTilesOf :: "Grid \<Rightarrow> Direction \<Rightarrow> int \<Rightarrow> Tile list" where
  "lineTilesOf g d i = (if d = Left \<or> d = Right then rowTilesOf g i else columnTilesOf g i)"

definition collapsedLine :: "Grid \<Rightarrow> Direction \<Rightarrow> int \<Rightarrow> LineResult" where
  "collapsedLine g d i = (if d = Left \<or> d = Right then slideRow (rowTilesOf g i) i d
                          else slideColumn (columnTilesOf g i) i d)"

text \<open>
  A board that the initial setup produces when both draws pick the first empty cell and the
  value 2; it is the running example of the properties below.
\<close>

definition exampleStart :: "Tile list" where
  "exampleStart = [\<lparr>tile_id = 1, tile_value = 2, row = 0, col = 0, isNew = True, justMerged = False\<rparr>,
                   \<lparr>tile_id = 2, tile_value = 2, row = 0, col = 1, isNew = True, justMerged = False\<rparr>]"

text \<open>A tile with both flags cleared, and a full board on which no move is left.\<close>

definition tileAt :: "int \<Rightarrow> int \<Rightarrow> int \<Rightarrow> int \<Rightarrow> Tile" where
  "tileAt i v r c = \<lparr>tile_id = i, tile_value = v, row = r, col = c, isNew = False, justMerged = False\<rparr>"

definition exampleFull :: "Tile list" where
  "exampleFull =
     [tileAt 1 2 0 0, tileAt 2 4 0 1, tileAt 3 2 0 2, tileAt 4 4 0 3,
      tileAt 5 4 1 0, tileAt 6 2 1 1, tileAt 7 4 1 2, tileAt 8 2 1 3,
      tileAt 9 2 2 0, tileAt 10 4 2 1, tileAt 11 2 2 2, tileAt 12 4 2 3,
      tileAt 13 4 3 0, tileAt 14 2 3 1, tileAt 15 4 3 2, tileAt 16 2 3 3]"

text \<open>The scan state that pushes what a collapsed line holds, started at target slot \<open>k\<close>.\<close>

definition scanOf :: "int \<Rightarrow> LineResult \<Rightarrow> LineScan" where
  "scanOf k L = \<lparr>result = line_tiles L, scan_moved = line_moved L, scan_score = line_score L,
                 targetIndex = k + int (length (line_tiles L))\<rparr>"

section \<open>Basic facts\<close>

lemma indices_eq: "indices = [0, 1, 2, 3]"
  by (simp add: indices_def BOARD_SIZE_def upto.simps)

lemma cells_eq:
  "cells = [(0, 0), (0, 1), (0, 2), (0, 3), (1, 0), (1, 1), (1, 2), (1, 3),
            (2, 0), (2, 1), (2, 2), (2, 3), (3, 0), (3, 1), (3, 2), (3, 3)]"
  by (simp add: cells_def indices_eq)

text \<open>The definitions that a move on a concrete board unfolds.\<close>

lemmas move_defs = moveTiles_def clearFlags_def emptyGrid_def indices_eq BOARD_SIZE_def
  rowStep_def rowTilesOf_def columnStep_def columnTilesOf_def List.map_filter_def
  slideRow_def slideRow_body_def slideColumn_def slideColumn_body_def
  scanStart_def moveStart_def canonicalKey_def Let_def

lemma extend_assoc: "extend (extend a b) c = extend a (extend b c)"
  by (simp add: extend_def)

lemma result_extend [simp]: "result (extend a b) = result a @ result b"
  by (simp add: extend_def)

lemma scan_moved_extend [simp]: "scan_moved (extend a b) = (scan_moved a \<or> scan_moved b)"
  by (simp add: extend_def)

lemma scan_score_extend [simp]: "scan_score (extend a b) = scan_score a + scan_score b"
  by (simp add: extend_def)

lemma targetIndex_extend [simp]: "targetIndex (extend a b) = targetIndex b"
  by (simp add: extend_def)

subsection \<open>The scan of a row\<close>

lemma slideRow_body_extend:
  "slideRow_body d r t m st = extend st (slideRow_body d r t m (scanAt (targetIndex st)))"
  by (simp add: slideRow_body_def scanAt_def extend_def Let_def)

lemma targetIndex_slideRow_body [simp]:
  "targetIndex (slideRow_body d r t m st) = targetIndex st + 1"
  by (simp add: slideRow_body_def Let_def)

text \<open>
  What a scan does from a state \<open>st\<close> is what it does from the empty state at the same
  target slot, put after \<open>st\<close>.
\<close>

lemma slideRow_loop_extend:
  "slideRow_loop d r xs st = extend st (slideRow_loop d r xs (scanAt (targetIndex st)))"
proof (induction xs arbitrary: st rule: induct_list012)
  case 1
  show ?case by (simp add: scanAt_def extend_def)
next
  case (2 t)
  show ?case using slideRow_body_extend[of d r t False st] by simp
next
  case (3 t n rest)
  define k where "k = targetIndex st"
  define m where "m = (tile_value n = tile_value t)"
  define ys where "ys = (if m then rest else n # rest)"
  define b where "b = slideRow_body d r t m (scanAt k)"
  have unroll: "slideRow_loop d r (t # n # rest) u = slideRow_loop d r ys (slideRow_body d r t m u)"
    for u
    by (simp add: m_def ys_def)
  have ih: "slideRow_loop d r ys u = extend u (slideRow_loop d r ys (scanAt (targetIndex u)))"
    for u
  proof (cases m)
    case True
    then have "ys = rest" by (simp add: ys_def)
    then show ?thesis by (simp only: "3.IH"(1)[of u])
  next
    case False
    then have "ys = n # rest" by (simp add: ys_def)
    then show ?thesis by (simp only: "3.IH"(2)[of u])
  qed
  have tb: "targetIndex b = k + 1"
    by (simp add: b_def scanAt_def)
  have be: "slideRow_body d r t m st = extend st b"
    unfolding b_def k_def by (rule slideRow_body_extend)
  have "slideRow_loop d r (t # n # rest) st = slideRow_loop d r ys (extend st b)"
    by (simp only: unroll be)
  also have "\<dots> = extend (extend st b) (slideRow_loop d r ys (scanAt (k + 1)))"
    using ih[of "extend st b"] by (simp add: tb)
  also have "\<dots> = extend st (extend b (slideRow_loop d r ys (scanAt (k + 1))))"
    by (rule extend_assoc)
  also have "extend b (slideRow_loop d r ys (scanAt (k + 1))) = slideRow_loop d r ys b"
    using ih[of b] by (simp add: tb)
  also have "slideRow_loop d r ys b = slideRow_loop d r (t # n # rest) (scanAt k)"
    by (simp only: unroll b_def)
  finally show ?case by (simp add: k_def)
qed

lemma slideRow_loop_merge:
  assumes "tile_value n = tile_value t"
  shows "slideRow_loop d r (t # n # rest) st
           = extend (slideRow_body d r t True st)
               (slideRow_loop d r rest (scanAt (targetIndex st + 1)))"
proof -
  let ?b = "slideRow_body d r t True st"
  have "slideRow_loop d r (t # n # rest) st = slideRow_loop d r rest ?b"
    using assms by simp
  also have "\<dots> = extend ?b (slideRow_loop d r rest (scanAt (targetIndex ?b)))"
    by (rule slideRow_loop_extend)
  finally show ?thesis by (simp only: targetIndex_slideRow_body)
qed

subsection \<open>The scan of a column\<close>

lemma slideColumn_body_extend:
  "slideColumn_body d c t m st = extend st (slideColumn_body d c t m (scanAt (targetIndex st)))"
  by (simp add: slideColumn_body_def scanAt_def extend_def Let_def)

lemma targetIndex_slideColumn_body [simp]:
  "targetIndex (slideColumn_body d c t m st) = targetIndex st + 1"
  by (simp add: slideColumn_body_def Let_def)

lemma slideColumn_loop_extend:
  "slideColumn_loop d c xs st = extend st (slideColumn_loop d c xs (scanAt (targetIndex st)))"
proof (induction xs arbitrary: st rule: induct_list012)
  case 1
  show ?case by (simp add: scanAt_def extend_def)
next
  case (2 t)
  show ?case using slideColumn_body_extend[of d c t False st] by simp
next
  case (3 t n rest)
  define k where "k = targetIndex st"
  define m where "m = (tile_value n = tile_value t)"
  define ys where "ys = (if m then rest else n # rest)"
  define b where "b = slideColumn_body d c t m (scanAt k)"
  have unroll: "slideColumn_loop d c (t # n # rest) u = slideColumn_loop d c ys (slideColumn_body d c t m u)"
    for u
    by (simp add: m_def ys_def)
  have ih: "slideColumn_loop d c ys u = extend u (slideColumn_loop d c ys (scanAt (targetIndex u)))"
    for u
  proof (cases m)
    case True
    then have "ys = rest" by (simp add: ys_def)
    then show ?thesis by (simp only: "3.IH"(1)[of u])
  next
    case False
    then have "ys = n # rest" by (simp add: ys_def)
    then show ?thesis by (simp only: "3.IH"(2)[of u])
  qed
  have tb: "targetIndex b = k + 1"
    by (simp add: b_def scanAt_def)
  have be: "slideColumn_body d c t m st = extend st b"
    unfolding b_def k_def by (rule slideColumn_body_extend)
  have "slideColumn_loop d c (t # n # rest) st = slideColumn_loop d c ys (extend st b)"
    by (simp only: unroll be)
  also have "\<dots> = extend (extend st b) (slideColumn_loop d c ys (scanAt (k + 1)))"
    using ih[of "extend st b"] by (simp add: tb)
  also have "\<dots> = extend st (extend b (slideColumn_loop d c ys (scanAt (k + 1))))"
    by (rule extend_assoc)
  also have "extend b (slideColumn_loop d c ys (scanAt (k + 1))) = slideColumn_loop d c ys b"
    using ih[of b] by (simp add: tb)
  also have "slideColumn_loop d c ys b = slideColumn_loop d c (t # n # rest) (scanAt k)"
    by (simp only: unroll b_def)
  finally show ?case by (simp add: k_def)
qed

lemma slideColumn_loop_merge:
  assumes "tile_value n = tile_value t"
  shows "slideColumn_loop d c (t # n # rest) st
           = extend (slideColumn_body d c t True st)
               (slideColumn_loop d c rest (scanAt (targetIndex st + 1)))"
proof -
  let ?b = "slideColumn_body d c t True st"
  have "slideColumn_loop d c (t # n # rest) st = slideColumn_loop d c rest ?b"
    using assms by simp
  also have "\<dots> = extend ?b (slideColumn_loop d c rest (scanAt (targetIndex ?b)))"
    by (rule slideColumn_loop_extend)
  finally show ?thesis by (simp only: targetIndex_slideColumn_body)
qed

section \<open>Facts about the collapse of a line\<close>

subsection \<open>Rows\<close>

lemma slideRow_body_result:
  "result (slideRow_body d r t m st) = result st @ [(if m then t\<lparr>tile_value := tile_value t * 2, justMerged := True\<rparr> else t\<lparr>justMerged := False\<rparr>)\<lparr>col := (if d = Left then targetIndex st else BOARD_SIZE - 1 - targetIndex st), row := r\<rparr>]"
  by (simp add: slideRow_body_def Let_def)

lemma slideRow_loop_sum:
  "sum_list (map tile_value (result (slideRow_loop d r xs st)))
     = sum_list (map tile_value (result st)) + sum_list (map tile_value xs)"
  by (induction xs arbitrary: st rule: induct_list012) (simp_all add: slideRow_body_result)

lemma slideRow_loop_length:
  "length (result (slideRow_loop d r xs st)) \<le> length (result st) + length xs"
proof (induction xs arbitrary: st rule: induct_list012)
  case (3 t n rest)
  show ?case
    using "3.IH"(1)[of "slideRow_body d r t True st"] "3.IH"(2)[of "slideRow_body d r t False st"]
    by (simp add: slideRow_body_result)
qed (simp_all add: slideRow_body_result)

lemma slideRow_loop_length_lower:
  "2 * length (result st) + length xs \<le> 2 * length (result (slideRow_loop d r xs st))"
proof (induction xs arbitrary: st rule: induct_list012)
  case (3 t n rest)
  show ?case
    using "3.IH"(1)[of "slideRow_body d r t True st"] "3.IH"(2)[of "slideRow_body d r t False st"]
    by (simp add: slideRow_body_result)
qed (simp_all add: slideRow_body_result)

lemma placedRow_body:
  "placedRow d r st \<Longrightarrow> placedRow d r (slideRow_body d r t m st)"
  by (simp add: placedRow_def slideRow_body_result rowSlots_def coords_def)

lemma placedRow_loop:
  "placedRow d r st \<Longrightarrow> placedRow d r (slideRow_loop d r xs st)"
  by (induction xs arbitrary: st rule: induct_list012) (simp_all add: placedRow_body)

lemma slideRow_loop_still:
  assumes "inPlaceRow d r (targetIndex st) xs"
    and "length (result (slideRow_loop d r xs st)) = length (result st) + length xs"
  shows "scan_moved (slideRow_loop d r xs st) = scan_moved st"
  using assms
proof (induction xs arbitrary: st rule: induct_list012)
  case 1
  then show ?case by simp
next
  case (2 t)
  then show ?case by (simp add: slideRow_body_def Let_def)
next
  case (3 t n rest)
  show ?case
  proof (cases "tile_value n = tile_value t")
    case True
    have "length (result (slideRow_loop d r rest (slideRow_body d r t True st)))
            \<le> length (result st) + 1 + length rest"
      using slideRow_loop_length[of d r rest "slideRow_body d r t True st"]
      by (simp add: slideRow_body_result)
    with True "3.prems"(2) show ?thesis by simp
  next
    case False
    let ?b = "slideRow_body d r t False st"
    have m: "scan_moved ?b = scan_moved st"
      using "3.prems"(1) by (simp add: slideRow_body_def Let_def)
    have "scan_moved (slideRow_loop d r (n # rest) ?b) = scan_moved ?b"
    proof (rule "3.IH"(2))
      show "inPlaceRow d r (targetIndex ?b) (n # rest)"
        using "3.prems"(1) by simp
      show "length (result (slideRow_loop d r (n # rest) ?b)) = length (result ?b) + length (n # rest)"
        using "3.prems"(2) False by (simp add: slideRow_body_result)
    qed
    with False m show ?thesis by simp
  qed
qed

lemma slideRow_loop_origin:
  assumes "u \<in> set (result (slideRow_loop d r xs st))"
  shows "u \<in> set (result st)
       \<or> (\<exists>t\<in>set xs. tile_id u = tile_id t \<and> isNew u = isNew t
             \<and> (tile_value u = tile_value t \<or> tile_value u = 2 * tile_value t))"
  using assms
proof (induction xs arbitrary: st rule: induct_list012)
  case 1
  then show ?case by simp
next
  case (2 t)
  then show ?case by (auto simp add: slideRow_body_result)
next
  case (3 t n rest)
  show ?case
  proof (cases "tile_value n = tile_value t")
    case True
    with "3.prems" have "u \<in> set (result (slideRow_loop d r rest (slideRow_body d r t True st)))"
      by simp
    from "3.IH"(1)[OF this] show ?thesis
      by (auto simp add: slideRow_body_result)
  next
    case False
    with "3.prems" have "u \<in> set (result (slideRow_loop d r (n # rest) (slideRow_body d r t False st)))"
      by simp
    from "3.IH"(2)[OF this] show ?thesis
      by (auto simp add: slideRow_body_result)
  qed
qed

lemma slideRow_loop_score:
  assumes "\<forall>t\<in>set xs. 0 \<le> tile_value t"
  shows "scan_score st \<le> scan_score (slideRow_loop d r xs st)"
  using assms
proof (induction xs arbitrary: st rule: induct_list012)
  case (3 t n rest)
  have a: "scan_score (slideRow_body d r t True st) \<le> scan_score (slideRow_loop d r rest (slideRow_body d r t True st))"
    using "3.IH"(1)[of "slideRow_body d r t True st"] "3.prems" by simp
  have b: "scan_score (slideRow_body d r t False st) \<le> scan_score (slideRow_loop d r (n # rest) (slideRow_body d r t False st))"
    using "3.IH"(2)[of "slideRow_body d r t False st"] "3.prems" by simp
  have c: "scan_score st \<le> scan_score (slideRow_body d r t m st)" for m
    using "3.prems" by (simp add: slideRow_body_def Let_def)
  show ?case using a b c[of True] c[of False] by simp
qed (simp_all add: slideRow_body_def Let_def)

lemma slideRow_nil: "slideRow [] r d = \<lparr>line_tiles = [], line_moved = False, line_score = 0\<rparr>"
  by (simp add: slideRow_def scanStart_def)

text \<open>The line is scanned in some order of its tiles.\<close>

lemma slideRow_scan:
  obtains ys where "mset ys = mset xs"
    and "slideRow xs r d = \<lparr>line_tiles = result (slideRow_loop d r ys scanStart),
                             line_moved = scan_moved (slideRow_loop d r ys scanStart),
                             line_score = scan_score (slideRow_loop d r ys scanStart)\<rparr>"
proof (cases "d = Left")
  case True
  show ?thesis
    by (rule that[of "sort_key col xs"]) (simp_all add: slideRow_def Let_def True)
next
  case False
  show ?thesis
    by (rule that[of "sort_key (\<lambda>t. - col t) xs"]) (simp_all add: slideRow_def Let_def False)
qed

lemma slideRow_sum:
  "sum_list (map tile_value (line_tiles (slideRow xs r d))) = sum_list (map tile_value xs)"
proof -
  obtain ys where ys: "mset ys = mset xs"
    and eq: "line_tiles (slideRow xs r d) = result (slideRow_loop d r ys scanStart)"
    by (rule slideRow_scan[of xs r d]) simp
  have "sum_mset (mset (map tile_value ys)) = sum_mset (mset (map tile_value xs))"
    using ys by simp
  then have "sum_list (map tile_value ys) = sum_list (map tile_value xs)"
    by (simp only: sum_mset_sum_list)
  then show ?thesis
    by (simp add: eq slideRow_loop_sum scanStart_def)
qed

lemma slideRow_length: "length (line_tiles (slideRow xs r d)) \<le> length xs"
proof -
  obtain ys where ys: "mset ys = mset xs"
    and eq: "line_tiles (slideRow xs r d) = result (slideRow_loop d r ys scanStart)"
    by (rule slideRow_scan[of xs r d]) simp
  from ys have "length ys = length xs" by (rule mset_eq_length)
  with slideRow_loop_length[of d r ys scanStart] show ?thesis
    by (simp add: eq scanStart_def)
qed

lemma slideRow_length_lower: "length xs \<le> 2 * length (line_tiles (slideRow xs r d))"
proof -
  obtain ys where ys: "mset ys = mset xs"
    and eq: "line_tiles (slideRow xs r d) = result (slideRow_loop d r ys scanStart)"
    by (rule slideRow_scan[of xs r d]) simp
  from ys have "length ys = length xs" by (rule mset_eq_length)
  with slideRow_loop_length_lower[of scanStart ys d r] show ?thesis
    by (simp add: eq scanStart_def)
qed

lemma slideRow_coords:
  "map coords (line_tiles (slideRow xs r d)) = rowSlots d r (length (line_tiles (slideRow xs r d)))"
proof -
  obtain ys where eq: "line_tiles (slideRow xs r d) = result (slideRow_loop d r ys scanStart)"
    by (rule slideRow_scan[of xs r d]) simp
  have "placedRow d r scanStart"
    by (simp add: placedRow_def scanStart_def rowSlots_def)
  then have "placedRow d r (slideRow_loop d r ys scanStart)"
    by (rule placedRow_loop)
  then show ?thesis
    by (simp add: eq placedRow_def)
qed

lemma slideRow_origin:
  assumes "u \<in> set (line_tiles (slideRow xs r d))"
  shows "\<exists>t\<in>set xs. tile_id u = tile_id t \<and> isNew u = isNew t
             \<and> (tile_value u = tile_value t \<or> tile_value u = 2 * tile_value t)"
proof -
  obtain ys where ys: "mset ys = mset xs"
    and eq: "line_tiles (slideRow xs r d) = result (slideRow_loop d r ys scanStart)"
    by (rule slideRow_scan[of xs r d]) simp
  from ys have s: "set ys = set xs" by (rule mset_eq_setD)
  from assms have "u \<in> set (result (slideRow_loop d r ys scanStart))" by (simp add: eq)
  from slideRow_loop_origin[OF this] s show ?thesis
    by (simp add: scanStart_def)
qed

lemma slideRow_score:
  assumes "\<forall>t\<in>set xs. 0 \<le> tile_value t"
  shows "0 \<le> line_score (slideRow xs r d)"
proof -
  obtain ys where ys: "mset ys = mset xs"
    and eq: "line_score (slideRow xs r d) = scan_score (slideRow_loop d r ys scanStart)"
    by (rule slideRow_scan[of xs r d]) simp
  from ys have s: "set ys = set xs" by (rule mset_eq_setD)
  have "scan_score scanStart \<le> scan_score (slideRow_loop d r ys scanStart)"
    using s assms by (intro slideRow_loop_score) simp
  then show ?thesis
    by (simp add: eq scanStart_def)
qed

subsection \<open>Columns\<close>

lemma slideColumn_body_result:
  "result (slideColumn_body d c t m st) = result st @ [(if m then t\<lparr>tile_value := tile_value t * 2, justMerged := True\<rparr> else t\<lparr>justMerged := False\<rparr>)\<lparr>row := (if d = Up then targetIndex st else BOARD_SIZE - 1 - targetIndex st), col := c\<rparr>]"
  by (simp add: slideColumn_body_def Let_def)

lemma slideColumn_loop_sum:
  "sum_list (map tile_value (result (slideColumn_loop d c xs st)))
     = sum_list (map tile_value (result st)) + sum_list (map tile_value xs)"
  by (induction xs arbitrary: st rule: induct_list012) (simp_all add: slideColumn_body_result)

lemma slideColumn_loop_length:
  "length (result (slideColumn_loop d c xs st)) \<le> length (result st) + length xs"
proof (induction xs arbitrary: st rule: induct_list012)
  case (3 t n rest)
  show ?case
    using "3.IH"(1)[of "slideColumn_body d c t True st"] "3.IH"(2)[of "slideColumn_body d c t False st"]
    by (simp add: slideColumn_body_result)
qed (simp_all add: slideColumn_body_result)

lemma slideColumn_loop_length_lower:
  "2 * length (result st) + length xs \<le> 2 * length (result (slideColumn_loop d c xs st))"
proof (induction xs arbitrary: st rule: induct_list012)
  case (3 t n rest)
  show ?case
    using "3.IH"(1)[of "slideColumn_body d c t True st"] "3.IH"(2)[of "slideColumn_body d c t False st"]
    by (simp add: slideColumn_body_result)
qed (simp_all add: slideColumn_body_result)

lemma placedColumn_body:
  "placedColumn d c st \<Longrightarrow> placedColumn d c (slideColumn_body d c t m st)"
  by (simp add: placedColumn_def slideColumn_body_result columnSlots_def coords_def)

lemma placedColumn_loop:
  "placedColumn d c st \<Longrightarrow> placedColumn d c (slideColumn_loop d c xs st)"
  by (induction xs arbitrary: st rule: induct_list012) (simp_all add: placedColumn_body)

lemma slideColumn_loop_still:
  assumes "inPlaceColumn d c (targetIndex st) xs"
    and "length (result (slideColumn_loop d c xs st)) = length (result st) + length xs"
  shows "scan_moved (slideColumn_loop d c xs st) = scan_moved st"
  using assms
proof (induction xs arbitrary: st rule: induct_list012)
  case 1
  then show ?case by simp
next
  case (2 t)
  then show ?case by (simp add: slideColumn_body_def Let_def)
next
  case (3 t n rest)
  show ?case
  proof (cases "tile_value n = tile_value t")
    case True
    have "length (result (slideColumn_loop d c rest (slideColumn_body d c t True st)))
            \<le> length (result st) + 1 + length rest"
      using slideColumn_loop_length[of d c rest "slideColumn_body d c t True st"]
      by (simp add: slideColumn_body_result)
    with True "3.prems"(2) show ?thesis by simp
  next
    case False
    let ?b = "slideColumn_body d c t False st"
    have m: "scan_moved ?b = scan_moved st"
      using "3.prems"(1) by (simp add: slideColumn_body_def Let_def)
    have "scan_moved (slideColumn_loop d c (n # rest) ?b) = scan_moved ?b"
    proof (rule "3.IH"(2))
      show "inPlaceColumn d c (targetIndex ?b) (n # rest)"
        using "3.prems"(1) by simp
      show "length (result (slideColumn_loop d c (n # rest) ?b)) = length (result ?b) + length (n # rest)"
        using "3.prems"(2) False by (simp add: slideColumn_body_result)
    qed
    with False m show ?thesis by simp
  qed
qed

lemma slideColumn_loop_origin:
  assumes "u \<in> set (result (slideColumn_loop d c xs st))"
  shows "u \<in> set (result st)
       \<or> (\<exists>t\<in>set xs. tile_id u = tile_id t \<and> isNew u = isNew t
             \<and> (tile_value u = tile_value t \<or> tile_value u = 2 * tile_value t))"
  using assms
proof (induction xs arbitrary: st rule: induct_list012)
  case 1
  then show ?case by simp
next
  case (2 t)
  then show ?case by (auto simp add: slideColumn_body_result)
next
  case (3 t n rest)
  show ?case
  proof (cases "tile_value n = tile_value t")
    case True
    with "3.prems" have "u \<in> set (result (slideColumn_loop d c rest (slideColumn_body d c t True st)))"
      by simp
    from "3.IH"(1)[OF this] show ?thesis
      by (auto simp add: slideColumn_body_result)
  next
    case False
    with "3.prems" have "u \<in> set (result (slideColumn_loop d c (n # rest) (slideColumn_body d c t False st)))"
      by simp
    from "3.IH"(2)[OF this] show ?thesis
      by (auto simp add: slideColumn_body_result)
  qed
qed

lemma slideColumn_loop_score:
  assumes "\<forall>t\<in>set xs. 0 \<le> tile_value t"
  shows "scan_score st \<le> scan_score (slideColumn_loop d c xs st)"
  using assms
proof (induction xs arbitrary: st rule: induct_list012)
  case (3 t n rest)
  have a: "scan_score (slideColumn_body d c t True st) \<le> scan_score (slideColumn_loop d c rest (slideColumn_body d c t True st))"
    using "3.IH"(1)[of "slideColumn_body d c t True st"] "3.prems" by simp
  have b: "scan_score (slideColumn_body d c t False st) \<le> scan_score (slideColumn_loop d c (n # rest) (slideColumn_body d c t False st))"
    using "3.IH"(2)[of "slideColumn_body d c t False st"] "3.prems" by simp
  have c: "scan_score st \<le> scan_score (slideColumn_body d c t m st)" for m
    using "3.prems" by (simp add: slideColumn_body_def Let_def)
  show ?case using a b c[of True] c[of False] by simp
qed (simp_all add: slideColumn_body_def Let_def)

lemma slideColumn_nil: "slideColumn [] c d = \<lparr>line_tiles = [], line_moved = False, line_score = 0\<rparr>"
  by (simp add: slideColumn_def scanStart_def)

text \<open>The line is scanned in some order of its tiles.\<close>

lemma slideColumn_scan:
  obtains ys where "mset ys = mset xs"
    and "slideColumn xs c d = \<lparr>line_tiles = result (slideColumn_loop d c ys scanStart),
                             line_moved = scan_moved (slideColumn_loop d c ys scanStart),
                             line_score = scan_score (slideColumn_loop d c ys scanStart)\<rparr>"
proof (cases "d = Up")
  case True
  show ?thesis
    by (rule that[of "sort_key row xs"]) (simp_all add: slideColumn_def Let_def True)
next
  case False
  show ?thesis
    by (rule that[of "sort_key (\<lambda>t. - row t) xs"]) (simp_all add: slideColumn_def Let_def False)
qed

lemma slideColumn_sum:
  "sum_list (map tile_value (line_tiles (slideColumn xs c d))) = sum_list (map tile_value xs)"
proof -
  obtain ys where ys: "mset ys = mset xs"
    and eq: "line_tiles (slideColumn xs c d) = result (slideColumn_loop d c ys scanStart)"
    by (rule slideColumn_scan[of xs c d]) simp
  have "sum_mset (mset (map tile_value ys)) = sum_mset (mset (map tile_value xs))"
    using ys by simp
  then have "sum_list (map tile_value ys) = sum_list (map tile_value xs)"
    by (simp only: sum_mset_sum_list)
  then show ?thesis
    by (simp add: eq slideColumn_loop_sum scanStart_def)
qed

lemma slideColumn_length: "length (line_tiles (slideColumn xs c d)) \<le> length xs"
proof -
  obtain ys where ys: "mset ys = mset xs"
    and eq: "line_tiles (slideColumn xs c d) = result (slideColumn_loop d c ys scanStart)"
    by (rule slideColumn_scan[of xs c d]) simp
  from ys have "length ys = length xs" by (rule mset_eq_length)
  with slideColumn_loop_length[of d c ys scanStart] show ?thesis
    by (simp add: eq scanStart_def)
qed

lemma slideColumn_length_lower: "length xs \<le> 2 * length (line_tiles (slideColumn xs c d))"
proof -
  obtain ys where ys: "mset ys = mset xs"
    and eq: "line_tiles (slideColumn xs c d) = result (slideColumn_loop d c ys scanStart)"
    by (rule slideColumn_scan[of xs c d]) simp
  from ys have "length ys = length xs" by (rule mset_eq_length)
  with slideColumn_loop_length_lower[of scanStart ys d c] show ?thesis
    by (simp add: eq scanStart_def)
qed

lemma slideColumn_coords:
  "map coords (line_tiles (slideColumn xs c d)) = columnSlots d c (length (line_tiles (slideColumn xs c d)))"
proof -
  obtain ys where eq: "line_tiles (slideColumn xs c d) = result (slideColumn_loop d c ys scanStart)"
    by (rule slideColumn_scan[of xs c d]) simp
  have "placedColumn d c scanStart"
    by (simp add: placedColumn_def scanStart_def columnSlots_def)
  then have "placedColumn d c (slideColumn_loop d c ys scanStart)"
    by (rule placedColumn_loop)
  then show ?thesis
    by (simp add: eq placedColumn_def)
qed

lemma slideColumn_origin:
  assumes "u \<in> set (line_tiles (slideColumn xs c d))"
  shows "\<exists>t\<in>set xs. tile_id u = tile_id t \<and> isNew u = isNew t
             \<and> (tile_value u = tile_value t \<or> tile_value u = 2 * tile_value t)"
proof -
  obtain ys where ys: "mset ys = mset xs"
    and eq: "line_tiles (slideColumn xs c d) = result (slideColumn_loop d c ys scanStart)"
    by (rule slideColumn_scan[of xs c d]) simp
  from ys have s: "set ys = set xs" by (rule mset_eq_setD)
  from assms have "u \<in> set (result (slideColumn_loop d c ys scanStart))" by (simp add: eq)
  from slideColumn_loop_origin[OF this] s show ?thesis
    by (simp add: scanStart_def)
qed

lemma slideColumn_score:
  assumes "\<forall>t\<in>set xs. 0 \<le> tile_value t"
  shows "0 \<le> line_score (slideColumn xs c d)"
proof -
  obtain ys where ys: "mset ys = mset xs"
    and eq: "line_score (slideColumn xs c d) = scan_score (slideColumn_loop d c ys scanStart)"
    by (rule slideColumn_scan[of xs c d]) simp
  from ys have s: "set ys = set xs" by (rule mset_eq_setD)
  have "scan_score scanStart \<le> scan_score (slideColumn_loop d c ys scanStart)"
    using s assms by (intro slideColumn_loop_score) simp
  then show ?thesis
    by (simp add: eq scanStart_def)
qed

section \<open>Facts about the grid\<close>

lemma placeTiles_rows:
  "placeTiles ts g = Inr g' \<Longrightarrow> \<forall>t\<in>set ts. 0 \<le> row t \<and> row t < BOARD_SIZE"
  by (induction ts arbitrary: g) (auto split: if_splits)

lemma placeTiles_total:
  "\<forall>t\<in>set ts. 0 \<le> row t \<and> row t < BOARD_SIZE \<Longrightarrow> \<exists>g'. placeTiles ts g = Inr g'"
  by (induction ts arbitrary: g) auto

lemma placeTiles_cell:
  "placeTiles ts g = Inr g' \<Longrightarrow> g' p = Some t \<Longrightarrow> (t \<in> set ts \<and> coords t = p) \<or> g p = Some t"
proof (induction ts arbitrary: g)
  case Nil
  then show ?case by simp
next
  case (Cons a ts)
  from Cons.prems(1) have ok: "placeTiles ts (g((row a, col a) \<mapsto> a)) = Inr g'"
    by (simp split: if_splits)
  from Cons.IH[OF ok Cons.prems(2)] show ?case
    by (auto simp add: coords_def split: if_splits)
qed

lemma placeTiles_other:
  "placeTiles ts g = Inr g' \<Longrightarrow> p \<notin> coords ` set ts \<Longrightarrow> g' p = g p"
proof (induction ts arbitrary: g)
  case Nil
  then show ?case by simp
next
  case (Cons a ts)
  from Cons.prems(1) have ok: "placeTiles ts (g((row a, col a) \<mapsto> a)) = Inr g'"
    by (simp split: if_splits)
  from Cons.IH[OF ok] Cons.prems(2) show ?case
    by (auto simp add: coords_def)
qed

lemma placeTiles_distinct:
  "placeTiles ts g = Inr g' \<Longrightarrow> distinct (map coords ts) \<Longrightarrow> t \<in> set ts \<Longrightarrow> g' (coords t) = Some t"
proof (induction ts arbitrary: g)
  case Nil
  then show ?case by simp
next
  case (Cons a ts)
  from Cons.prems(1) have ok: "placeTiles ts (g((row a, col a) \<mapsto> a)) = Inr g'"
    by (simp split: if_splits)
  show ?case
  proof (cases "t = a")
    case True
    have "coords a \<notin> coords ` set ts" using Cons.prems(2) by simp
    from placeTiles_other[OF ok this] True show ?thesis by (simp add: coords_def)
  next
    case False
    with Cons.prems have "t \<in> set ts" "distinct (map coords ts)" by simp_all
    from Cons.IH[OF ok this(2) this(1)] show ?thesis .
  qed
qed

lemma placeTiles_gridOK:
  "placeTiles ts emptyGrid = Inr g \<Longrightarrow> gridOK g"
  unfolding gridOK_def using placeTiles_cell[of ts emptyGrid g]
  by (auto simp add: emptyGrid_def)

lemma gridOK_D: "gridOK g \<Longrightarrow> g p = Some t \<Longrightarrow> coords t = p"
  unfolding gridOK_def by blast

lemma rowTilesOf_length: "length (rowTilesOf g r) \<le> 4"
  by (simp add: rowTilesOf_def indices_eq List.map_filter_def)

lemma rowTilesOf_full:
  assumes "gridOK g" and "length (rowTilesOf g r) = 4"
  obtains t0 t1 t2 t3 where "rowTilesOf g r = [t0, t1, t2, t3]"
    and "coords t0 = (r, 0)" and "coords t1 = (r, 1)" and "coords t2 = (r, 2)" and "coords t3 = (r, 3)"
proof -
  have len: "length (filter (\<lambda>c. g (r, c) \<noteq> None) [0, 1, 2, 3]) = 4"
    using assms(2) by (simp add: rowTilesOf_def indices_eq List.map_filter_def)
  have all: "g (r, c) \<noteq> None" if "c \<in> {0, 1, 2, 3}" for c
  proof (rule ccontr)
    assume "\<not> g (r, c) \<noteq> None"
    with that have "length (filter (\<lambda>c. g (r, c) \<noteq> None) [0, 1, 2, 3]) < 4"
      by (auto split: if_splits)
    with len show False by simp
  qed
  from all[of 0] all[of 1] all[of 2] all[of 3]
  obtain t0 t1 t2 t3 where g: "g (r, 0) = Some t0" "g (r, 1) = Some t1" "g (r, 2) = Some t2" "g (r, 3) = Some t3"
    by auto
  show ?thesis
  proof (rule that[of t0 t1 t2 t3])
    show "rowTilesOf g r = [t0, t1, t2, t3]"
      by (simp add: rowTilesOf_def indices_eq g)
  qed (use g assms(1) in \<open>auto simp add: gridOK_def\<close>)
qed

lemma slideRow_moved_short:
  assumes "gridOK g" and "line_moved (slideRow (rowTilesOf g r) r d)"
  shows "length (line_tiles (slideRow (rowTilesOf g r) r d)) < 4"
proof (rule ccontr)
  assume "\<not> length (line_tiles (slideRow (rowTilesOf g r) r d)) < 4"
  with slideRow_length[of "rowTilesOf g r" r d] rowTilesOf_length[of g r]
  have n: "length (line_tiles (slideRow (rowTilesOf g r) r d)) = 4" and l: "length (rowTilesOf g r) = 4"
    by simp_all
  from rowTilesOf_full[OF assms(1) l] obtain t0 t1 t2 t3
    where xs: "rowTilesOf g r = [t0, t1, t2, t3]"
      and c: "coords t0 = (r, 0)" "coords t1 = (r, 1)" "coords t2 = (r, 2)" "coords t3 = (r, 3)"
    by blast
  define ys where "ys = (if d = Left then [t0, t1, t2, t3] else [t3, t2, t1, t0])"
  have sorted: "(if d = Left then sort_key col (rowTilesOf g r) else sort_key (\<lambda>t. - col t) (rowTilesOf g r)) = ys"
    using c by (simp add: xs ys_def coords_def)
  have res: "slideRow (rowTilesOf g r) r d
               = \<lparr>line_tiles = result (slideRow_loop d r ys scanStart),
                  line_moved = scan_moved (slideRow_loop d r ys scanStart),
                  line_score = scan_score (slideRow_loop d r ys scanStart)\<rparr>"
    unfolding slideRow_def Let_def sorted ..
  have place: "inPlaceRow d r (targetIndex scanStart) ys"
    using c by (simp add: ys_def scanStart_def coords_def BOARD_SIZE_def)
  have "length (result (slideRow_loop d r ys scanStart)) = length (result scanStart) + length ys"
    using n by (simp add: res ys_def scanStart_def)
  from slideRow_loop_still[OF place this] have "\<not> scan_moved (slideRow_loop d r ys scanStart)"
    by (simp add: scanStart_def)
  with assms(2) show False by (simp add: res)
qed

lemma columnTilesOf_length: "length (columnTilesOf g c) \<le> 4"
  by (simp add: columnTilesOf_def indices_eq List.map_filter_def)

lemma columnTilesOf_full:
  assumes "gridOK g" and "length (columnTilesOf g c) = 4"
  obtains t0 t1 t2 t3 where "columnTilesOf g c = [t0, t1, t2, t3]"
    and "coords t0 = (0, c)" and "coords t1 = (1, c)" and "coords t2 = (2, c)" and "coords t3 = (3, c)"
proof -
  have len: "length (filter (\<lambda>r. g (r, c) \<noteq> None) [0, 1, 2, 3]) = 4"
    using assms(2) by (simp add: columnTilesOf_def indices_eq List.map_filter_def)
  have all: "g (r, c) \<noteq> None" if "r \<in> {0, 1, 2, 3}" for r
  proof (rule ccontr)
    assume "\<not> g (r, c) \<noteq> None"
    with that have "length (filter (\<lambda>r. g (r, c) \<noteq> None) [0, 1, 2, 3]) < 4"
      by (auto split: if_splits)
    with len show False by simp
  qed
  from all[of 0] all[of 1] all[of 2] all[of 3]
  obtain t0 t1 t2 t3 where g: "g (0, c) = Some t0" "g (1, c) = Some t1" "g (2, c) = Some t2" "g (3, c) = Some t3"
    by auto
  show ?thesis
  proof (rule that[of t0 t1 t2 t3])
    show "columnTilesOf g c = [t0, t1, t2, t3]"
      by (simp add: columnTilesOf_def indices_eq g)
  qed (use g assms(1) in \<open>auto simp add: gridOK_def\<close>)
qed

lemma slideColumn_moved_short:
  assumes "gridOK g" and "line_moved (slideColumn (columnTilesOf g c) c d)"
  shows "length (line_tiles (slideColumn (columnTilesOf g c) c d)) < 4"
proof (rule ccontr)
  assume "\<not> length (line_tiles (slideColumn (columnTilesOf g c) c d)) < 4"
  with slideColumn_length[of "columnTilesOf g c" c d] columnTilesOf_length[of g c]
  have n: "length (line_tiles (slideColumn (columnTilesOf g c) c d)) = 4" and l: "length (columnTilesOf g c) = 4"
    by simp_all
  from columnTilesOf_full[OF assms(1) l] obtain t0 t1 t2 t3
    where xs: "columnTilesOf g c = [t0, t1, t2, t3]"
      and c: "coords t0 = (0, c)" "coords t1 = (1, c)" "coords t2 = (2, c)" "coords t3 = (3, c)"
    by blast
  define ys where "ys = (if d = Up then [t0, t1, t2, t3] else [t3, t2, t1, t0])"
  have sorted: "(if d = Up then sort_key row (columnTilesOf g c) else sort_key (\<lambda>t. - row t) (columnTilesOf g c)) = ys"
    using c by (simp add: xs ys_def coords_def)
  have res: "slideColumn (columnTilesOf g c) c d
               = \<lparr>line_tiles = result (slideColumn_loop d c ys scanStart),
                  line_moved = scan_moved (slideColumn_loop d c ys scanStart),
                  line_score = scan_score (slideColumn_loop d c ys scanStart)\<rparr>"
    unfolding slideColumn_def Let_def sorted ..
  have place: "inPlaceColumn d c (targetIndex scanStart) ys"
    using c by (simp add: ys_def scanStart_def coords_def BOARD_SIZE_def)
  have "length (result (slideColumn_loop d c ys scanStart)) = length (result scanStart) + length ys"
    using n by (simp add: res ys_def scanStart_def)
  from slideColumn_loop_still[OF place this] have "\<not> scan_moved (slideColumn_loop d c ys scanStart)"
    by (simp add: scanStart_def)
  with assms(2) show False by (simp add: res)
qed

section \<open>Facts about a move of the board\<close>

lemma rowStep_eq:
  "rowStep g d acc r =
     \<lparr>tiles = tiles acc @ line_tiles (slideRow (rowTilesOf g r) r d),
      moved = (moved acc \<or> line_moved (slideRow (rowTilesOf g r) r d)),
      scoreGained = scoreGained acc + line_score (slideRow (rowTilesOf g r) r d)\<rparr>"
  by (simp add: rowStep_def Let_def slideRow_nil)

lemma columnStep_eq:
  "columnStep g d acc c =
     \<lparr>tiles = tiles acc @ line_tiles (slideColumn (columnTilesOf g c) c d),
      moved = (moved acc \<or> line_moved (slideColumn (columnTilesOf g c) c d)),
      scoreGained = scoreGained acc + line_score (slideColumn (columnTilesOf g c) c d)\<rparr>"
  by (simp add: columnStep_def Let_def slideColumn_nil)

lemma foldl_rowStep:
  "foldl (rowStep g d) acc rs =
     \<lparr>tiles = tiles acc @ concat (map (\<lambda>r. line_tiles (slideRow (rowTilesOf g r) r d)) rs),
      moved = (moved acc \<or> (\<exists>r\<in>set rs. line_moved (slideRow (rowTilesOf g r) r d))),
      scoreGained = scoreGained acc + sum_list (map (\<lambda>r. line_score (slideRow (rowTilesOf g r) r d)) rs)\<rparr>"
proof (induction rs arbitrary: acc)
  case Nil
  show ?case by simp
next
  case (Cons r rs)
  show ?case
    by (simp only: foldl_Cons Cons.IH) (auto simp add: rowStep_eq)
qed

lemma foldl_columnStep:
  "foldl (columnStep g d) acc cs =
     \<lparr>tiles = tiles acc @ concat (map (\<lambda>c. line_tiles (slideColumn (columnTilesOf g c) c d)) cs),
      moved = (moved acc \<or> (\<exists>c\<in>set cs. line_moved (slideColumn (columnTilesOf g c) c d))),
      scoreGained = scoreGained acc + sum_list (map (\<lambda>c. line_score (slideColumn (columnTilesOf g c) c d)) cs)\<rparr>"
proof (induction cs arbitrary: acc)
  case Nil
  show ?case by simp
next
  case (Cons c cs)
  show ?case
    by (simp only: foldl_Cons Cons.IH) (auto simp add: columnStep_eq)
qed

lemma moveTiles_eq:
  assumes "placeTiles (map clearFlags ts) emptyGrid = Inr g"
  shows "moveTiles ts d =
     Inr (if \<exists>i\<in>set indices. line_moved (collapsedLine g d i)
          then \<lparr>tiles = sort_key canonicalKey (concat (map (\<lambda>i. line_tiles (collapsedLine g d i)) indices)),
                moved = True,
                scoreGained = sum_list (map (\<lambda>i. line_score (collapsedLine g d i)) indices)\<rparr>
          else \<lparr>tiles = map clearFlags ts, moved = False, scoreGained = 0\<rparr>)"
proof (cases "d = Left \<or> d = Right")
  case True
  then have c: "collapsedLine g d = (\<lambda>i. slideRow (rowTilesOf g i) i d)"
    by (simp add: collapsedLine_def fun_eq_iff)
  show ?thesis
    using True by (simp add: moveTiles_def assms Let_def foldl_rowStep moveStart_def c)
next
  case False
  then have c: "collapsedLine g d = (\<lambda>i. slideColumn (columnTilesOf g i) i d)"
    by (simp add: collapsedLine_def fun_eq_iff)
  show ?thesis
    using False by (simp add: moveTiles_def assms Let_def foldl_columnStep moveStart_def c)
qed

lemma moveTiles_error:
  "placeTiles (map clearFlags ts) emptyGrid = Inl e \<Longrightarrow> moveTiles ts d = Inl e"
  by (simp add: moveTiles_def)

lemma wellFormed_coords:
  "wellFormed ts = ((\<forall>p\<in>set (map coords ts). 0 \<le> fst p \<and> fst p < 4 \<and> 0 \<le> snd p \<and> snd p < 4)
                    \<and> distinct (map coords ts))"
  by (auto simp add: wellFormed_def list_all_iff inRange_def coords_def BOARD_SIZE_def)

lemma rowSlots_distinct: "distinct (rowSlots d r n)"
  by (auto simp add: rowSlots_def distinct_map inj_on_def)

lemma rowSlots_disjoint: "r \<noteq> r' \<Longrightarrow> set (rowSlots d r n) \<inter> set (rowSlots d r' n') = {}"
  by (auto simp add: rowSlots_def)

lemma rowSlots_inside:
  "n \<le> 4 \<Longrightarrow> r \<in> {0, 1, 2, 3} \<Longrightarrow>
   \<forall>p\<in>set (rowSlots d r n). 0 \<le> fst p \<and> fst p < 4 \<and> 0 \<le> snd p \<and> snd p < 4"
  by (auto simp add: rowSlots_def BOARD_SIZE_def)

lemma columnSlots_distinct: "distinct (columnSlots d c n)"
  by (auto simp add: columnSlots_def distinct_map inj_on_def)

lemma columnSlots_disjoint: "c \<noteq> c' \<Longrightarrow> set (columnSlots d c n) \<inter> set (columnSlots d c' n') = {}"
  by (auto simp add: columnSlots_def)

lemma columnSlots_inside:
  "n \<le> 4 \<Longrightarrow> c \<in> {0, 1, 2, 3} \<Longrightarrow>
   \<forall>p\<in>set (columnSlots d c n). 0 \<le> fst p \<and> fst p < 4 \<and> 0 \<le> snd p \<and> snd p < 4"
  by (auto simp add: columnSlots_def BOARD_SIZE_def)

lemma rows_wellFormed:
  "wellFormed (concat (map (\<lambda>r. line_tiles (slideRow (rowTilesOf g r) r d)) indices))"
proof -
  define n where "n r = length (line_tiles (slideRow (rowTilesOf g r) r d))" for r
  have n4: "n r \<le> 4" for r
    using slideRow_length[of "rowTilesOf g r" r d] rowTilesOf_length[of g r] by (simp add: n_def)
  have c: "map coords (line_tiles (slideRow (rowTilesOf g r) r d)) = rowSlots d r (n r)" for r
    unfolding n_def by (rule slideRow_coords)
  have m: "map coords (concat (map (\<lambda>r. line_tiles (slideRow (rowTilesOf g r) r d)) indices))
             = rowSlots d 0 (n 0) @ rowSlots d 1 (n 1) @ rowSlots d 2 (n 2) @ rowSlots d 3 (n 3)"
    by (simp add: indices_eq c)
  have inside: "\<forall>p\<in>set (rowSlots d r (n r)). 0 \<le> fst p \<and> fst p < 4 \<and> 0 \<le> snd p \<and> snd p < 4"
    if "r \<in> {0, 1, 2, 3}" for r
    using n4 that by (rule rowSlots_inside)
  have dis: "distinct (rowSlots d 0 (n 0) @ rowSlots d 1 (n 1) @ rowSlots d 2 (n 2) @ rowSlots d 3 (n 3))"
    by (simp add: rowSlots_distinct rowSlots_disjoint Int_Un_distrib Int_Un_distrib2)
  show ?thesis
    unfolding wellFormed_coords m
    using inside[of 0] inside[of 1] inside[of 2] inside[of 3] dis
    by (simp add: ball_Un)
qed

lemma columns_wellFormed:
  "wellFormed (concat (map (\<lambda>c. line_tiles (slideColumn (columnTilesOf g c) c d)) indices))"
proof -
  define n where "n c = length (line_tiles (slideColumn (columnTilesOf g c) c d))" for c
  have n4: "n c \<le> 4" for c
    using slideColumn_length[of "columnTilesOf g c" c d] columnTilesOf_length[of g c]
    by (simp add: n_def)
  have c: "map coords (line_tiles (slideColumn (columnTilesOf g c) c d)) = columnSlots d c (n c)"
    for c
    unfolding n_def by (rule slideColumn_coords)
  have m: "map coords (concat (map (\<lambda>c. line_tiles (slideColumn (columnTilesOf g c) c d)) indices))
             = columnSlots d 0 (n 0) @ columnSlots d 1 (n 1) @ columnSlots d 2 (n 2)
               @ columnSlots d 3 (n 3)"
    by (simp add: indices_eq c)
  have inside: "\<forall>p\<in>set (columnSlots d c (n c)). 0 \<le> fst p \<and> fst p < 4 \<and> 0 \<le> snd p \<and> snd p < 4"
    if "c \<in> {0, 1, 2, 3}" for c
    using n4 that by (rule columnSlots_inside)
  have dis: "distinct (columnSlots d 0 (n 0) @ columnSlots d 1 (n 1) @ columnSlots d 2 (n 2)
                       @ columnSlots d 3 (n 3))"
    by (simp add: columnSlots_distinct columnSlots_disjoint Int_Un_distrib Int_Un_distrib2)
  show ?thesis
    unfolding wellFormed_coords m
    using inside[of 0] inside[of 1] inside[of 2] inside[of 3] dis
    by (simp add: ball_Un)
qed

lemma collapsedLine_cases:
  obtains (rows) "collapsedLine g d = (\<lambda>i. slideRow (rowTilesOf g i) i d)"
      and "lineTilesOf g d = rowTilesOf g"
  | (columns) "collapsedLine g d = (\<lambda>i. slideColumn (columnTilesOf g i) i d)"
      and "lineTilesOf g d = columnTilesOf g"
  by (cases "d = Left \<or> d = Right") (simp_all add: collapsedLine_def lineTilesOf_def fun_eq_iff)

lemma collapsed_wellFormed:
  "wellFormed (concat (map (\<lambda>i. line_tiles (collapsedLine g d i)) indices))"
  by (cases rule: collapsedLine_cases[of g d]) (simp_all only: rows_wellFormed columns_wellFormed)

lemma collapsedLine_length: "length (line_tiles (collapsedLine g d i)) \<le> 4"
proof (cases rule: collapsedLine_cases[of g d])
  case rows
  show ?thesis
    using slideRow_length[of "rowTilesOf g i" i d] rowTilesOf_length[of g i] by (simp add: rows)
next
  case columns
  show ?thesis
    using slideColumn_length[of "columnTilesOf g i" i d] columnTilesOf_length[of g i]
    by (simp add: columns)
qed

lemma collapsedLine_moved_short:
  assumes "gridOK g" and "line_moved (collapsedLine g d i)"
  shows "length (line_tiles (collapsedLine g d i)) < 4"
proof (cases rule: collapsedLine_cases[of g d])
  case rows
  show ?thesis
    using assms slideRow_moved_short[of g i d] by (simp add: rows)
next
  case columns
  show ?thesis
    using assms slideColumn_moved_short[of g i d] by (simp add: columns)
qed

lemma collapsedLine_sum:
  "sum_list (map tile_value (line_tiles (collapsedLine g d i)))
     = sum_list (map tile_value (lineTilesOf g d i))"
  by (cases rule: collapsedLine_cases[of g d]) (simp_all add: slideRow_sum slideColumn_sum)

lemma collapsedLine_origin:
  assumes "u \<in> set (line_tiles (collapsedLine g d i))"
  shows "\<exists>t\<in>set (lineTilesOf g d i). tile_id u = tile_id t \<and> isNew u = isNew t
             \<and> (tile_value u = tile_value t \<or> tile_value u = 2 * tile_value t)"
proof (cases rule: collapsedLine_cases[of g d])
  case rows
  show ?thesis
    using assms slideRow_origin[of u "rowTilesOf g i" i d] by (simp add: rows)
next
  case columns
  show ?thesis
    using assms slideColumn_origin[of u "columnTilesOf g i" i d] by (simp add: columns)
qed

lemma collapsedLine_score:
  assumes "\<forall>t\<in>set (lineTilesOf g d i). 0 \<le> tile_value t"
  shows "0 \<le> line_score (collapsedLine g d i)"
proof (cases rule: collapsedLine_cases[of g d])
  case rows
  show ?thesis
    using assms slideRow_score[of "rowTilesOf g i" i d] by (simp add: rows)
next
  case columns
  show ?thesis
    using assms slideColumn_score[of "columnTilesOf g i" i d] by (simp add: columns)
qed

lemma moved_board_short:
  assumes "gridOK g" and "\<exists>i\<in>set indices. line_moved (collapsedLine g d i)"
  shows "length (concat (map (\<lambda>i. line_tiles (collapsedLine g d i)) indices)) < 16"
proof -
  define n where "n i = length (line_tiles (collapsedLine g d i))" for i
  from assms(2) obtain i where i: "i \<in> {0, 1, 2, 3}" and m: "line_moved (collapsedLine g d i)"
    by (auto simp add: indices_eq)
  from collapsedLine_moved_short[OF assms(1) m] have "n i < 4"
    by (simp add: n_def)
  moreover have "n 0 \<le> 4" "n 1 \<le> 4" "n 2 \<le> 4" "n 3 \<le> 4"
    by (simp_all add: n_def collapsedLine_length)
  moreover have "length (concat (map (\<lambda>i. line_tiles (collapsedLine g d i)) indices))
                   = n 0 + n 1 + n 2 + n 3"
    by (simp add: indices_eq n_def)
  ultimately show ?thesis
    using i by auto
qed

lemma cells_distinct: "distinct cells"
  by (simp add: cells_eq)

lemma cells_inside:
  "p \<in> set cells \<longleftrightarrow> 0 \<le> fst p \<and> fst p < 4 \<and> 0 \<le> snd p \<and> snd p < 4"
proof -
  have four: "(0 \<le> x \<and> x < 4) = (x \<in> {0, 1, 2, 3})" for x :: int
    by auto
  have "set cells = {0, 1, 2, 3} \<times> {0, 1, 2, 3}"
    by (simp add: cells_def indices_eq)
  then have "p \<in> set cells \<longleftrightarrow> fst p \<in> {0, 1, 2, 3} \<and> snd p \<in> {0, 1, 2, 3}"
    by (cases p) (simp only: mem_Times_iff)
  then show ?thesis
    using four[of "fst p"] four[of "snd p"] by blast
qed

lemma coords_clearFlags [simp]: "coords (clearFlags t) = coords t"
  by (simp add: coords_def clearFlags_def)

lemma wellFormed_rows:
  "wellFormed ts \<Longrightarrow> \<forall>t\<in>set ts. 0 \<le> row t \<and> row t < BOARD_SIZE"
  by (simp add: wellFormed_def list_all_iff inRange_def)

lemma wellFormed_perm:
  assumes "mset us = mset ts"
  shows "wellFormed us = wellFormed ts"
proof -
  from assms have m: "mset (map coords us) = mset (map coords ts)" by simp
  from m have "set (map coords us) = set (map coords ts)" by (rule mset_eq_setD)
  moreover from m have "distinct (map coords us) = distinct (map coords ts)"
    by (rule mset_eq_imp_distinct_iff)
  ultimately show ?thesis
    by (simp only: wellFormed_coords)
qed

lemma coords_map_clearFlags: "map coords (map clearFlags ts) = map coords ts"
  by (induction ts) simp_all

lemma wellFormed_clearFlags: "wellFormed (map clearFlags ts) = wellFormed ts"
  unfolding wellFormed_coords coords_map_clearFlags ..

lemma markOccupied_eq:
  "markOccupied ts occ =
     (if \<forall>t\<in>set ts. 0 \<le> row t \<and> row t < BOARD_SIZE
      then Inr (\<lambda>p. occ p \<or> p \<in> coords ` set ts) else Inl TypeError)"
  by (induction ts arbitrary: occ) (auto simp add: fun_eq_iff coords_def)

lemma getEmptyPositions_eq:
  "\<forall>t\<in>set ts. 0 \<le> row t \<and> row t < BOARD_SIZE \<Longrightarrow>
   getEmptyPositions ts = Inr (filter (\<lambda>p. p \<notin> coords ` set ts) cells)"
  by (simp add: getEmptyPositions_def markOccupied_eq)

lemma getEmptyPositions_rows:
  "getEmptyPositions ts = Inr ps \<Longrightarrow> \<forall>t\<in>set ts. 0 \<le> row t \<and> row t < BOARD_SIZE"
  by (simp add: getEmptyPositions_def markOccupied_eq split: if_splits)

lemma spawn_wellFormed:
  assumes "wellFormed ts" and "getEmptyPositions ts = Inr ps" and "k < length ps"
  shows "wellFormed (ts @ [\<lparr>tile_id = i, tile_value = v, row = fst (ps ! k), col = snd (ps ! k),
                           isNew = n, justMerged = m\<rparr>])"
proof -
  have "ps = filter (\<lambda>p. p \<notin> coords ` set ts) cells"
    using assms(2) getEmptyPositions_eq[OF getEmptyPositions_rows[OF assms(2)]] by simp
  with nth_mem[OF assms(3)] have "ps ! k \<in> set (filter (\<lambda>p. p \<notin> coords ` set ts) cells)"
    by simp
  then have "ps ! k \<in> set cells" and "ps ! k \<notin> coords ` set ts"
    by simp_all
  with assms(1) show ?thesis
    by (simp add: wellFormed_coords cells_inside coords_def)
qed

lemma addRandomTile_wellFormed:
  assumes "wellFormed ts" and "addRandomTile ts idRef pick lt09 = Inr (ts', idRef')"
  shows "wellFormed ts'"
proof -
  from wellFormed_rows[OF assms(1)] obtain ps where ps: "getEmptyPositions ts = Inr ps"
    by (simp add: getEmptyPositions_eq)
  show ?thesis
  proof (cases "length ps = 0")
    case True
    with assms ps show ?thesis by (simp add: addRandomTile_def)
  next
    case False
    with assms(2) ps have k: "pick < length ps"
      by (simp add: addRandomTile_def split: if_splits)
    from spawn_wellFormed[OF assms(1) ps k] assms(2) ps False k show ?thesis
      by (auto simp add: addRandomTile_def Let_def)
  qed
qed

lemma generateInitialTiles_loop_wellFormed:
  "wellFormed ts \<Longrightarrow> generateInitialTiles_loop i ts idRef rnd = Inr (ts', idRef')
   \<Longrightarrow> wellFormed ts'"
proof (induction i ts idRef rnd rule: generateInitialTiles_loop.induct)
  case (1 i ts idRef rnd)
  show ?case
  proof (cases "i < INITIAL_TILES")
    case False
    with "1.prems" show ?thesis
      by (simp add: generateInitialTiles_loop.simps[of i])
  next
    case True
    from wellFormed_rows[OF "1.prems"(1)] obtain ps where ps: "getEmptyPositions ts = Inr ps"
      by (simp add: getEmptyPositions_eq)
    show ?thesis
    proof (cases "length ps = 0")
      case e: True
      with "1.prems" True ps show ?thesis
        by (simp add: generateInitialTiles_loop.simps[of i])
    next
      case ne: False
      with "1.prems"(2) True ps have k: "fst (rnd i) < length ps"
        by (simp add: generateInitialTiles_loop.simps[of i] split: if_splits)
      let ?new = "\<lparr>tile_id = idRef + 1, tile_value = (if snd (rnd i) then 2 else 4),
                   row = fst (ps ! fst (rnd i)), col = snd (ps ! fst (rnd i)),
                   isNew = True, justMerged = False\<rparr>"
      have wf: "wellFormed (ts @ [?new])"
        by (rule spawn_wellFormed[OF "1.prems"(1) ps k])
      have next_call: "generateInitialTiles_loop (i + 1) (ts @ [?new]) (idRef + 1) rnd = Inr (ts', idRef')"
        using "1.prems"(2) True ps ne k by (simp add: generateInitialTiles_loop.simps[of i])
      from ne have ne': "length ps \<noteq> 0" .
      show ?thesis
        by (rule "1.IH"[OF True ps ne' k wf next_call])
    qed
  qed
qed

lemma moveTiles_defined:
  assumes "\<forall>t\<in>set ts. 0 \<le> row t \<and> row t < BOARD_SIZE"
  obtains g where "placeTiles (map clearFlags ts) emptyGrid = Inr g"
proof -
  have "\<forall>t\<in>set (map clearFlags ts). 0 \<le> row t \<and> row t < BOARD_SIZE"
    using assms by (simp add: clearFlags_def)
  from placeTiles_total[OF this] that show ?thesis by blast
qed

lemma moveTiles_wellFormed:
  assumes "wellFormed ts" and "moveTiles ts d = Inr res"
  shows "wellFormed (tiles res)"
proof -
  obtain g where g: "placeTiles (map clearFlags ts) emptyGrid = Inr g"
    using wellFormed_rows[OF assms(1)] by (rule moveTiles_defined)
  show ?thesis
  proof (cases "moved res")
    case True
    with assms(2) have "tiles res = sort_key canonicalKey (concat (map (\<lambda>i. line_tiles (collapsedLine g d i)) indices))"
      by (auto simp add: moveTiles_eq[OF g] split: if_splits)
    then show ?thesis
      using collapsed_wellFormed[of g d] by (simp add: wellFormed_perm[of "sort_key canonicalKey _"])
  next
    case False
    with assms(2) have "tiles res = map clearFlags ts"
      by (auto simp add: moveTiles_eq[OF g] split: if_splits)
    with assms(1) show ?thesis by (simp add: wellFormed_clearFlags)
  qed
qed

lemma map_filter_grid_perm:
  assumes g: "placeTiles ts emptyGrid = Inr g" and wf: "wellFormed ts"
    and cs: "distinct cs" "set cs = set cells"
  shows "mset (List.map_filter g cs) = mset ts"
proof -
  have ok: "gridOK g" using g by (rule placeTiles_gridOK)
  have mem: "t \<in> set (List.map_filter g cs) \<longleftrightarrow> (\<exists>p\<in>set cs. g p = Some t)" for t
    by (force simp add: List.map_filter_def)
  have d1: "distinct (List.map_filter g cs)"
    unfolding List.map_filter_def distinct_map
  proof
    show "distinct (filter (\<lambda>p. g p \<noteq> None) cs)" using cs(1) by simp
    show "inj_on (the \<circ> g) (set (filter (\<lambda>p. g p \<noteq> None) cs))"
    proof (rule inj_onI)
      fix p q
      assume "p \<in> set (filter (\<lambda>p. g p \<noteq> None) cs)"
        and "q \<in> set (filter (\<lambda>p. g p \<noteq> None) cs)"
        and e: "(the \<circ> g) p = (the \<circ> g) q"
      then obtain t u where t: "g p = Some t" and u: "g q = Some u" by auto
      with e have "t = u" by simp
      with gridOK_D[OF ok t] gridOK_D[OF ok u] have "coords t = p" "coords t = q" by simp_all
      then show "p = q" by simp
    qed
  qed
  have d2: "distinct ts"
    using wf by (simp add: wellFormed_def distinct_map)
  have "set (List.map_filter g cs) = set ts"
  proof (intro set_eqI iffI)
    fix t assume "t \<in> set (List.map_filter g cs)"
    then obtain p where "g p = Some t" by (auto simp add: mem)
    with placeTiles_cell[OF g this] show "t \<in> set ts"
      by (simp add: emptyGrid_def)
  next
    fix t assume t: "t \<in> set ts"
    have "distinct (map coords ts)" using wf by (simp add: wellFormed_def)
    from placeTiles_distinct[OF g this t] have "g (coords t) = Some t" .
    moreover have "coords t \<in> set cs"
      using wf t by (simp add: cs(2) cells_inside wellFormed_coords)
    ultimately show "t \<in> set (List.map_filter g cs)"
      unfolding mem by blast
  qed
  with d1 d2 show ?thesis
    by (simp add: set_eq_iff_mset_eq_distinct)
qed

lemma map_filter_concat:
  "concat (map (\<lambda>i. List.map_filter (\<lambda>j. g (f i j)) js) is)
     = List.map_filter g (concat (map (\<lambda>i. map (f i) js) is))"
  by (induction "is") (simp_all add: List.map_filter_def filter_map comp_def)

lemma lineTiles_perm:
  assumes "placeTiles ts emptyGrid = Inr g" and "wellFormed ts"
  shows "mset (concat (map (lineTilesOf g d) indices)) = mset ts"
proof (cases rule: collapsedLine_cases[of g d])
  case rows
  have "concat (map (rowTilesOf g) indices) = List.map_filter g cells"
    unfolding rowTilesOf_def cells_def by (rule map_filter_concat[of g "\<lambda>r c. (r, c)"])
  with map_filter_grid_perm[OF assms cells_distinct refl] show ?thesis
    by (simp add: rows)
next
  case columns
  let ?cs = "concat (map (\<lambda>c. map (\<lambda>r. (r, c)) indices) indices)"
  have eq: "concat (map (columnTilesOf g) indices) = List.map_filter g ?cs"
    unfolding columnTilesOf_def by (rule map_filter_concat[of g "\<lambda>c r. (r, c)"])
  have "distinct ?cs" and "set ?cs = set cells"
    by (simp_all add: indices_eq cells_eq) auto
  from map_filter_grid_perm[OF assms this] eq show ?thesis
    by (simp add: columns)
qed

lemma sum_values_perm:
  assumes "mset us = mset ts"
  shows "sum_list (map tile_value us) = sum_list (map tile_value ts)"
proof -
  from assms have "sum_mset (mset (map tile_value us)) = sum_mset (mset (map tile_value ts))"
    by simp
  then show ?thesis by (simp only: sum_mset_sum_list)
qed

lemma values_clearFlags: "map tile_value (map clearFlags ts) = map tile_value ts"
  by (induction ts) (simp_all add: clearFlags_def)

section \<open>Facts about spawning and about the session\<close>

lemma moveTiles_moved_tiles:
  assumes g: "placeTiles (map clearFlags ts) emptyGrid = Inr g"
    and m: "moveTiles ts d = Inr res" and "moved res"
  shows "tiles res = sort_key canonicalKey (concat (map (\<lambda>i. line_tiles (collapsedLine g d i)) indices))"
    and "\<exists>i\<in>set indices. line_moved (collapsedLine g d i)"
    and "scoreGained res = sum_list (map (\<lambda>i. line_score (collapsedLine g d i)) indices)"
  using assms by (auto simp add: moveTiles_eq[OF g] split: if_splits)

lemma empty_cell_exists:
  assumes "length ts < 16"
  shows "filter (\<lambda>p. p \<notin> coords ` set ts) cells \<noteq> []"
proof
  assume "filter (\<lambda>p. p \<notin> coords ` set ts) cells = []"
  then have "set cells \<subseteq> coords ` set ts"
    by (auto simp add: filter_empty_conv)
  then have "card (set cells) \<le> card (coords ` set ts)"
    by (intro card_mono) simp_all
  also have "\<dots> \<le> card (set ts)" by (intro card_image_le) simp
  also have "\<dots> \<le> length ts" by (rule card_length)
  finally have "card (set cells) < 16" using assms by simp
  moreover have "card (set cells) = 16"
    using distinct_card[OF cells_distinct] by (simp add: cells_eq)
  ultimately show False by simp
qed

lemma lineTilesOf_subset:
  assumes "placeTiles ts emptyGrid = Inr g" and "t \<in> set (lineTilesOf g d i)"
  shows "t \<in> set ts"
proof -
  from assms(2) obtain p where "g p = Some t"
    by (cases rule: collapsedLine_cases[of g d])
       (auto simp add: rowTilesOf_def columnTilesOf_def List.map_filter_def)
  from placeTiles_cell[OF assms(1) this] show ?thesis
    by (simp add: emptyGrid_def)
qed

lemma moveTiles_positive:
  assumes pos: "\<forall>t\<in>set ts. 0 < tile_value t" and m: "moveTiles ts d = Inr res"
  shows "(\<forall>t\<in>set (tiles res). 0 < tile_value t) \<and> 0 \<le> scoreGained res"
proof -
  from m obtain g where g: "placeTiles (map clearFlags ts) emptyGrid = Inr g"
    by (cases "placeTiles (map clearFlags ts) emptyGrid") (simp_all add: moveTiles_def)
  have line_pos: "0 < tile_value t" if "t \<in> set (lineTilesOf g d i)" for t i
  proof -
    from lineTilesOf_subset[OF g that] obtain t' where "t' \<in> set ts" and "t = clearFlags t'"
      by auto
    with pos show ?thesis by (simp add: clearFlags_def)
  qed
  show ?thesis
  proof (cases "moved res")
    case False
    with m have "res = \<lparr>tiles = map clearFlags ts, moved = False, scoreGained = 0\<rparr>"
      by (auto simp add: moveTiles_eq[OF g] split: if_splits)
    with pos show ?thesis by (simp add: clearFlags_def)
  next
    case True
    note mv = moveTiles_moved_tiles[OF g m True]
    have "0 < tile_value u" if "u \<in> set (tiles res)" for u
    proof -
      from that obtain i where "u \<in> set (line_tiles (collapsedLine g d i))"
        by (auto simp add: mv(1))
      from collapsedLine_origin[OF this] obtain t where "t \<in> set (lineTilesOf g d i)"
        and "tile_value u = tile_value t \<or> tile_value u = 2 * tile_value t"
        by blast
      with line_pos[of t i] show ?thesis by auto
    qed
    moreover have "0 \<le> line_score (collapsedLine g d i)" for i
      by (rule collapsedLine_score) (use line_pos in force)
    then have "0 \<le> scoreGained res"
      by (simp add: mv(3) indices_eq)
    ultimately show ?thesis by simp
  qed
qed

lemma addRandomTile_positive:
  assumes "\<forall>t\<in>set ts. 0 < tile_value t" and "addRandomTile ts idRef pick lt09 = Inr (ts', idRef')"
  shows "\<forall>t\<in>set ts'. 0 < tile_value t"
  using assms by (auto simp add: addRandomTile_def Let_def split: sum.splits if_splits)

lemma generateInitialTiles_loop_positive:
  "\<forall>t\<in>set ts. 0 < tile_value t \<Longrightarrow> generateInitialTiles_loop i ts idRef rnd = Inr (ts', idRef')
   \<Longrightarrow> \<forall>t\<in>set ts'. 0 < tile_value t"
proof (induction i ts idRef rnd rule: generateInitialTiles_loop.induct)
  case (1 i ts idRef rnd)
  show ?case
  proof (cases "i < INITIAL_TILES")
    case False
    with "1.prems" show ?thesis
      by (simp add: generateInitialTiles_loop.simps[of i])
  next
    case True
    from "1.prems"(2) True obtain ps where ps: "getEmptyPositions ts = Inr ps"
      by (cases "getEmptyPositions ts") (simp_all add: generateInitialTiles_loop.simps[of i])
    show ?thesis
    proof (cases "length ps = 0")
      case e: True
      with "1.prems" True ps show ?thesis
        by (simp add: generateInitialTiles_loop.simps[of i])
    next
      case ne: False
      with "1.prems"(2) True ps have k: "fst (rnd i) < length ps"
        by (simp add: generateInitialTiles_loop.simps[of i] split: if_splits)
      let ?new = "\<lparr>tile_id = idRef + 1, tile_value = (if snd (rnd i) then 2 else 4),
                   row = fst (ps ! fst (rnd i)), col = snd (ps ! fst (rnd i)),
                   isNew = True, justMerged = False\<rparr>"
      have p: "\<forall>t\<in>set (ts @ [?new]). 0 < tile_value t"
        using "1.prems"(1) by simp
      have next_call: "generateInitialTiles_loop (i + 1) (ts @ [?new]) (idRef + 1) rnd = Inr (ts', idRef')"
        using "1.prems"(2) True ps ne k by (simp add: generateInitialTiles_loop.simps[of i])
      from ne have ne': "length ps \<noteq> 0" .
      show ?thesis
        by (rule "1.IH"[OF True ps ne' k p next_call])
    qed
  qed
qed

lemma handleMove_cases:
  assumes "handleMove s d pick lt09 = Inr s'"
  obtains (over) "gameOver s" and "s' = s"
  | (still) res where "\<not> gameOver s" and "moveTiles (s_tiles s) d = Inr res" and "\<not> moved res"
      and "s' = s"
  | (moved) res withNewTile idRef' available where "\<not> gameOver s"
      and "moveTiles (s_tiles s) d = Inr res" and "moved res"
      and "addRandomTile (tiles res) (tileIdRef s) pick lt09 = Inr (withNewTile, idRef')"
      and "hasAvailableMoves withNewTile = Inr available"
      and "s' = \<lparr>s_tiles = withNewTile, score = score s + scoreGained res,
                 bestScore = max (bestScore s) (score s + scoreGained res),
                 gameOver = (\<not> available),
                 hasWon = (hasWon s \<or> containsTargetTile withNewTile 2048),
                 tileIdRef = idRef'\<rparr>"
proof (cases "gameOver s")
  case True
  with assms have "s' = s" by (simp add: handleMove_def)
  with True show ?thesis by (rule over)
next
  case playing: False
  with assms obtain res where res: "moveTiles (s_tiles s) d = Inr res"
    by (cases "moveTiles (s_tiles s) d") (simp_all add: handleMove_def)
  show ?thesis
  proof (cases "moved res")
    case False
    with assms playing res have "s' = s" by (simp add: handleMove_def)
    with playing res False show ?thesis by (rule still)
  next
    case True
    with assms playing res obtain withNewTile idRef'
      where spawn: "addRandomTile (tiles res) (tileIdRef s) pick lt09 = Inr (withNewTile, idRef')"
      by (cases "addRandomTile (tiles res) (tileIdRef s) pick lt09")
         (auto simp add: handleMove_def)
    with assms playing res True obtain available
      where av: "hasAvailableMoves withNewTile = Inr available"
      by (cases "hasAvailableMoves withNewTile") (simp_all add: handleMove_def Let_def)
    have "s' = \<lparr>s_tiles = withNewTile, score = score s + scoreGained res,
                 bestScore = max (bestScore s) (score s + scoreGained res),
                 gameOver = (\<not> available),
                 hasWon = (hasWon s \<or> containsTargetTile withNewTile 2048),
                 tileIdRef = idRef'\<rparr>"
      using assms playing res True spawn av by (simp add: handleMove_def Let_def)
    with playing res True spawn av show ?thesis by (rule moved)
  qed
qed

lemma reachableSession_positive:
  "reachableSession s \<Longrightarrow> \<forall>t\<in>set (s_tiles s). 0 < tile_value t"
proof (induction rule: reachableSession.induct)
  case (start rnd s)
  then obtain ts idRef where "generateInitialTiles_loop 0 [] 0 rnd = Inr (ts, idRef)" and "s_tiles s = ts"
    by (auto simp add: initialSession_def generateInitialTiles_def split: sum.splits)
  with generateInitialTiles_loop_positive[of "[]" 0 0 rnd ts idRef] show ?case by simp
next
  case (step s d pick lt09 s')
  from step.hyps(2) show ?case
  proof (cases rule: handleMove_cases)
    case over
    with step.IH show ?thesis by simp
  next
    case (still res)
    with step.IH show ?thesis by simp
  next
    case (moved res withNewTile idRef' available)
    from moveTiles_positive[OF step.IH moved(2)] have "\<forall>t\<in>set (tiles res). 0 < tile_value t"
      by simp
    from addRandomTile_positive[OF this moved(4)] moved(6) show ?thesis by simp
  qed
next
  case (reset s rnd s')
  then obtain ts idRef where "generateInitialTiles_loop 0 [] 0 rnd = Inr (ts, idRef)" and "s_tiles s' = ts"
    by (auto simp add: handleNewGame_def generateInitialTiles_def split: sum.splits)
  with generateInitialTiles_loop_positive[of "[]" 0 0 rnd ts idRef] show ?case by simp
qed

lemma exampleStart_generated:
  "generateInitialTiles 0 (\<lambda>i. (0, True)) = Inr (exampleStart, 2)"
  by (simp add: generateInitialTiles_def generateInitialTiles_loop.simps INITIAL_TILES_def
      getEmptyPositions_def cells_eq BOARD_SIZE_def exampleStart_def)

lemma exampleStart_moved:
  "moveTiles exampleStart Left
     = Inr \<lparr>tiles = [\<lparr>tile_id = 1, tile_value = 4, row = 0, col = 0, isNew = False,
                        justMerged = True\<rparr>],
            moved = True, scoreGained = 4\<rparr>"
  by (simp add: exampleStart_def move_defs)

lemma exampleStart_spawned:
  "addRandomTile [\<lparr>tile_id = 1, tile_value = 4, row = 0, col = 0, isNew = False, justMerged = True\<rparr>]
       2 0 True
     = Inr ([\<lparr>tile_id = 1, tile_value = 4, row = 0, col = 0, isNew = False, justMerged = True\<rparr>,
             \<lparr>tile_id = 3, tile_value = 2, row = 0, col = 1, isNew = True, justMerged = False\<rparr>], 3)"
  by (simp add: addRandomTile_def getEmptyPositions_def cells_eq BOARD_SIZE_def)

section \<open>Facts about the terminal-state test and about identifiers\<close>

lemma placeTiles_lookup:
  assumes g: "placeTiles ts emptyGrid = Inr g" and wf: "wellFormed ts"
  shows "g p = Some t \<longleftrightarrow> t \<in> set ts \<and> coords t = p"
proof
  assume "g p = Some t"
  from placeTiles_cell[OF g this] show "t \<in> set ts \<and> coords t = p"
    by (simp add: emptyGrid_def)
next
  assume "t \<in> set ts \<and> coords t = p"
  moreover have "distinct (map coords ts)" using wf by (simp add: wellFormed_def)
  ultimately show "g p = Some t"
    using placeTiles_distinct[OF g, of t] by auto
qed

lemma cellHasMove_iff:
  assumes g: "placeTiles ts emptyGrid = Inr g" and wf: "wellFormed ts"
  shows "cellHasMove g (r, c) \<longleftrightarrow>
           (\<exists>a\<in>set ts. \<exists>b\<in>set ts. coords a = (r, c) \<and> tile_value b = tile_value a
               \<and> (coords b = (r, c + 1) \<or> coords b = (r + 1, c)))"
proof
  assume "cellHasMove g (r, c)"
  then obtain a where a: "g (r, c) = Some a"
    and m: "(c + 1 < BOARD_SIZE \<and> (\<exists>b. g (r, c + 1) = Some b \<and> tile_value b = tile_value a))
          \<or> (r + 1 < BOARD_SIZE \<and> (\<exists>b. g (r + 1, c) = Some b \<and> tile_value b = tile_value a))"
    by (auto simp add: cellHasMove_def Let_def split: option.splits if_splits)
  from m obtain b where "tile_value b = tile_value a"
    and "g (r, c + 1) = Some b \<or> g (r + 1, c) = Some b"
    by blast
  with a show "\<exists>a\<in>set ts. \<exists>b\<in>set ts. coords a = (r, c) \<and> tile_value b = tile_value a
               \<and> (coords b = (r, c + 1) \<or> coords b = (r + 1, c))"
    unfolding placeTiles_lookup[OF g wf] by blast
next
  assume "\<exists>a\<in>set ts. \<exists>b\<in>set ts. coords a = (r, c) \<and> tile_value b = tile_value a
               \<and> (coords b = (r, c + 1) \<or> coords b = (r + 1, c))"
  then obtain a b where a: "a \<in> set ts" "coords a = (r, c)" and b: "b \<in> set ts"
    and v: "tile_value b = tile_value a"
    and n: "coords b = (r, c + 1) \<or> coords b = (r + 1, c)"
    by blast
  have ga: "g (r, c) = Some a"
    using a by (simp add: placeTiles_lookup[OF g wf])
  have inb: "coords b \<in> set cells"
    using wf b by (simp add: cells_inside wellFormed_coords)
  from n show "cellHasMove g (r, c)"
  proof
    assume cb: "coords b = (r, c + 1)"
    then have "g (r, c + 1) = Some b"
      using b by (simp add: placeTiles_lookup[OF g wf])
    moreover have "c + 1 < BOARD_SIZE"
      using inb cb by (simp add: cells_inside BOARD_SIZE_def)
    ultimately show ?thesis
      using ga v by (simp add: cellHasMove_def Let_def)
  next
    assume cb: "coords b = (r + 1, c)"
    then have "g (r + 1, c) = Some b"
      using b by (simp add: placeTiles_lookup[OF g wf])
    moreover have "r + 1 < BOARD_SIZE"
      using inb cb by (simp add: cells_inside BOARD_SIZE_def)
    ultimately show ?thesis
      using ga v by (simp add: cellHasMove_def Let_def split: option.splits)
  qed
qed

lemma cellHasMove_neighbour:
  assumes g: "placeTiles ts emptyGrid = Inr g" and wf: "wellFormed ts"
    and "a \<in> set ts" and "b \<in> set ts" and "tile_value b = tile_value a"
    and "coords b = (row a, col a + 1) \<or> coords b = (row a + 1, col a)"
  shows "cellHasMove g (row a, col a)"
proof -
  have "coords a = (row a, col a)" by (simp add: coords_def)
  with assms(3-6) have "\<exists>a'\<in>set ts. \<exists>b'\<in>set ts. coords a' = (row a, col a)
      \<and> tile_value b' = tile_value a'
      \<and> (coords b' = (row a, col a + 1) \<or> coords b' = (row a + 1, col a))"
    by blast
  then show ?thesis
    by (simp only: cellHasMove_iff[OF g wf])
qed

lemma adjacent_cases:
  "adjacent a b \<longleftrightarrow>
     coords b = (row a, col a + 1) \<or> coords b = (row a + 1, col a)
     \<or> coords a = (row b, col b + 1) \<or> coords a = (row b + 1, col b)"
  unfolding adjacent_def coords_def by (simp add: prod_eq_iff) arith

lemma exampleFull_wellFormed: "wellFormed exampleFull"
  by (simp add: exampleFull_def tileAt_def wellFormed_def inRange_def coords_def BOARD_SIZE_def)

lemma exampleFull_stuck: "hasAvailableMoves exampleFull = Inr False"
  by (simp add: hasAvailableMoves_def exampleFull_def tileAt_def BOARD_SIZE_def emptyGrid_def
      cells_eq cellHasMove_def)





section \<open>The loops of the source against the collapse of the specification\<close>

lemma slideRow_loop_specLineCollapse:
  assumes tg: "\<And>j. fst (target j) = r"
    "\<And>j. snd (target j) = (if d = Left then j else BOARD_SIZE - 1 - j)"
  shows "slideRow_loop d r s (scanAt k) = scanOf k (specLineCollapse target k s)"
proof (induction s arbitrary: k rule: induct_list012)
  case 1
  show ?case by (simp add: scanAt_def scanOf_def)
next
  case (2 t)
  show ?case
    by (auto simp add: scanAt_def scanOf_def slideRow_body_def tg coords_def prod_eq_iff Let_def)
next
  case (3 t n rest)
  show ?case
  proof (cases "tile_value n = tile_value t")
    case True
    have "slideRow_loop d r (t # n # rest) (scanAt k)
            = extend (slideRow_body d r t True (scanAt k)) (slideRow_loop d r rest (scanAt (k + 1)))"
      using slideRow_loop_merge[OF True, of d r rest "scanAt k"] by (simp add: scanAt_def)
    also have "slideRow_loop d r rest (scanAt (k + 1)) = scanOf (k + 1) (specLineCollapse target (k + 1) rest)"
      by (rule "3.IH"(1))
    finally have e: "slideRow_loop d r (t # n # rest) (scanAt k)
            = extend (slideRow_body d r t True (scanAt k))
                (scanOf (k + 1) (specLineCollapse target (k + 1) rest))" .
    show ?thesis
      unfolding e using True
      by (simp add: extend_def scanOf_def scanAt_def slideRow_body_def tg Let_def)
  next
    case False
    let ?b = "slideRow_body d r t False (scanAt k)"
    have "slideRow_loop d r (t # n # rest) (scanAt k) = slideRow_loop d r (n # rest) ?b"
      using False by simp
    also have "\<dots> = extend ?b (slideRow_loop d r (n # rest) (scanAt (targetIndex ?b)))"
      by (rule slideRow_loop_extend)
    also have "targetIndex ?b = k + 1" by (simp add: scanAt_def)
    also have "slideRow_loop d r (n # rest) (scanAt (k + 1))
                 = scanOf (k + 1) (specLineCollapse target (k + 1) (n # rest))"
      by (rule "3.IH"(2))
    finally have e: "slideRow_loop d r (t # n # rest) (scanAt k)
            = extend ?b (scanOf (k + 1) (specLineCollapse target (k + 1) (n # rest)))" .
    show ?thesis
      unfolding e using False
      by (auto simp add: extend_def scanOf_def scanAt_def slideRow_body_def tg
          coords_def prod_eq_iff Let_def)
  qed
qed

lemma slideRow_specLineCollapse:
  "slideRow xs r d = specLineCollapse (\<lambda>k. (r, if d = Left then k else BOARD_SIZE - 1 - k)) 0
                       (if d = Left then sort_key col xs else sort_key (\<lambda>t. - col t) xs)"
proof -
  have s: "scanStart = scanAt 0" by (simp add: scanStart_def scanAt_def)
  have "slideRow_loop d r s (scanAt 0)
          = scanOf 0 (specLineCollapse (\<lambda>k. (r, if d = Left then k else BOARD_SIZE - 1 - k)) 0 s)" for s
    by (rule slideRow_loop_specLineCollapse) simp_all
  then show ?thesis
    unfolding slideRow_def Let_def s by (simp add: scanOf_def)
qed

lemma slideColumn_loop_specLineCollapse:
  assumes tg: "\<And>j. snd (target j) = c"
    "\<And>j. fst (target j) = (if d = Up then j else BOARD_SIZE - 1 - j)"
  shows "slideColumn_loop d c s (scanAt k) = scanOf k (specLineCollapse target k s)"
proof (induction s arbitrary: k rule: induct_list012)
  case 1
  show ?case by (simp add: scanAt_def scanOf_def)
next
  case (2 t)
  show ?case
    by (auto simp add: scanAt_def scanOf_def slideColumn_body_def tg coords_def prod_eq_iff Let_def)
next
  case (3 t n rest)
  show ?case
  proof (cases "tile_value n = tile_value t")
    case True
    have "slideColumn_loop d c (t # n # rest) (scanAt k)
            = extend (slideColumn_body d c t True (scanAt k)) (slideColumn_loop d c rest (scanAt (k + 1)))"
      using slideColumn_loop_merge[OF True, of d c rest "scanAt k"] by (simp add: scanAt_def)
    also have "slideColumn_loop d c rest (scanAt (k + 1)) = scanOf (k + 1) (specLineCollapse target (k + 1) rest)"
      by (rule "3.IH"(1))
    finally have e: "slideColumn_loop d c (t # n # rest) (scanAt k)
            = extend (slideColumn_body d c t True (scanAt k))
                (scanOf (k + 1) (specLineCollapse target (k + 1) rest))" .
    show ?thesis
      unfolding e using True
      by (simp add: extend_def scanOf_def scanAt_def slideColumn_body_def tg Let_def)
  next
    case False
    let ?b = "slideColumn_body d c t False (scanAt k)"
    have "slideColumn_loop d c (t # n # rest) (scanAt k) = slideColumn_loop d c (n # rest) ?b"
      using False by simp
    also have "\<dots> = extend ?b (slideColumn_loop d c (n # rest) (scanAt (targetIndex ?b)))"
      by (rule slideColumn_loop_extend)
    also have "targetIndex ?b = k + 1" by (simp add: scanAt_def)
    also have "slideColumn_loop d c (n # rest) (scanAt (k + 1))
                 = scanOf (k + 1) (specLineCollapse target (k + 1) (n # rest))"
      by (rule "3.IH"(2))
    finally have e: "slideColumn_loop d c (t # n # rest) (scanAt k)
            = extend ?b (scanOf (k + 1) (specLineCollapse target (k + 1) (n # rest)))" .
    show ?thesis
      unfolding e using False
      by (auto simp add: extend_def scanOf_def scanAt_def slideColumn_body_def tg
          coords_def prod_eq_iff Let_def)
  qed
qed

lemma slideColumn_specLineCollapse:
  "slideColumn xs c d = specLineCollapse (\<lambda>k. (if d = Up then k else BOARD_SIZE - 1 - k, c)) 0
                       (if d = Up then sort_key row xs else sort_key (\<lambda>t. - row t) xs)"
proof -
  have s: "scanStart = scanAt 0" by (simp add: scanStart_def scanAt_def)
  have "slideColumn_loop d c s (scanAt 0)
          = scanOf 0 (specLineCollapse (\<lambda>k. (if d = Up then k else BOARD_SIZE - 1 - k, c)) 0 s)" for s
    by (rule slideColumn_loop_specLineCollapse) simp_all
  then show ?thesis
    unfolding slideColumn_def Let_def s by (simp add: scanOf_def)
qed

lemma concat_mergeBlocks: "concat (mergeBlocks s) = s"
  by (induction s rule: mergeBlocks.induct) simp_all

lemma mergeBlocks_shape:
  "b \<in> set (mergeBlocks s) \<Longrightarrow>
   (\<exists>t. b = [t]) \<or> (\<exists>t n. b = [t, n] \<and> tile_value n = tile_value t)"
  by (induction s rule: mergeBlocks.induct) (auto split: if_splits)

lemma specLineCollapse_blocks:
  "map (\<lambda>u. (tile_id u, tile_value u, justMerged u)) (line_tiles (specLineCollapse target k s))
     = map (\<lambda>b. (tile_id (hd b), sum_list (map tile_value b), length b = 2)) (mergeBlocks s)"
  by (induction s arbitrary: k rule: mergeBlocks.induct) simp_all

section \<open>The merge step of a line collapse\<close>

text \<open>
  Claim C1.  For every line and every direction, \<open>slideRow\<close> and \<open>slideColumn\<close> return what
  the collapse of the specification returns on the sorted line.  In that collapse, and in
  the scan loops of the source from any state, a tile whose successor in sorted order has
  the same value is put out with its value doubled and \<open>justMerged\<close> set, at the next
  free slot of the line; the doubled value is added to the score of the line; the line
  counts as moved; and the scan goes on behind the successor, which is never put out.  Two
  tiles of one value alone on a row or a column become one tile of twice the value at the
  edge the line moves to, with the doubled value as the score, in each of the four
  directions.  On the board with two tiles of value 2 at (0,0) and (0,1), a move to the
  left returns the single tile of value 4 at (0,0) with \<open>justMerged\<close> set, \<open>moved = True\<close>
  and \<open>scoreGained = 4\<close>; the moves to the right, up and down of two such tiles merge them
  likewise at the other edges.
\<close>

theorem line_collapse_merge:
  assumes "tile_value nextTile = tile_value tile"
  shows "slideRow xs r d
           = specLineCollapse (\<lambda>k. (r, if d = Left then k else BOARD_SIZE - 1 - k)) 0
               (if d = Left then sort_key col xs else sort_key (\<lambda>t. - col t) xs)
       \<and> slideColumn xs c d
           = specLineCollapse (\<lambda>k. (if d = Up then k else BOARD_SIZE - 1 - k, c)) 0
               (if d = Up then sort_key row xs else sort_key (\<lambda>t. - row t) xs)
       \<and> specLineCollapse target k (tile # nextTile # rest)
           = \<lparr>line_tiles = tile\<lparr>tile_value := 2 * tile_value tile, justMerged := True,
                                  row := fst (target k), col := snd (target k)\<rparr>
                               # line_tiles (specLineCollapse target (k + 1) rest),
              line_moved = True,
              line_score = 2 * tile_value tile + line_score (specLineCollapse target (k + 1) rest)\<rparr>
       \<and> (col tile < col nextTile \<longrightarrow>
            slideRow [tile, nextTile] r Left
              = \<lparr>line_tiles = [tile\<lparr>tile_value := 2 * tile_value tile, justMerged := True,
                                      col := 0, row := r\<rparr>],
                 line_moved = True, line_score = 2 * tile_value tile\<rparr>
          \<and> slideRow [tile, nextTile] r Right
              = \<lparr>line_tiles = [nextTile\<lparr>tile_value := 2 * tile_value tile, justMerged := True,
                                          col := 3, row := r\<rparr>],
                 line_moved = True, line_score = 2 * tile_value tile\<rparr>)
       \<and> (row tile < row nextTile \<longrightarrow>
            slideColumn [tile, nextTile] c Up
              = \<lparr>line_tiles = [tile\<lparr>tile_value := 2 * tile_value tile, justMerged := True,
                                      row := 0, col := c\<rparr>],
                 line_moved = True, line_score = 2 * tile_value tile\<rparr>
          \<and> slideColumn [tile, nextTile] c Down
              = \<lparr>line_tiles = [nextTile\<lparr>tile_value := 2 * tile_value tile, justMerged := True,
                                          row := 3, col := c\<rparr>],
                 line_moved = True, line_score = 2 * tile_value tile\<rparr>)
       \<and> result (slideRow_loop d r (tile # nextTile # rest) st)
           = result st
             @ [tile\<lparr>tile_value := 2 * tile_value tile, justMerged := True,
                     col := (if d = Left then targetIndex st else BOARD_SIZE - 1 - targetIndex st),
                     row := r\<rparr>]
             @ result (slideRow_loop d r rest (scanAt (targetIndex st + 1)))
       \<and> scan_score (slideRow_loop d r (tile # nextTile # rest) st)
           = scan_score st + 2 * tile_value tile
             + scan_score (slideRow_loop d r rest (scanAt (targetIndex st + 1)))
       \<and> scan_moved (slideRow_loop d r (tile # nextTile # rest) st)
       \<and> result (slideColumn_loop d c (tile # nextTile # rest) st)
           = result st
             @ [tile\<lparr>tile_value := 2 * tile_value tile, justMerged := True,
                     row := (if d = Up then targetIndex st else BOARD_SIZE - 1 - targetIndex st),
                     col := c\<rparr>]
             @ result (slideColumn_loop d c rest (scanAt (targetIndex st + 1)))
       \<and> scan_score (slideColumn_loop d c (tile # nextTile # rest) st)
           = scan_score st + 2 * tile_value tile
             + scan_score (slideColumn_loop d c rest (scanAt (targetIndex st + 1)))
       \<and> scan_moved (slideColumn_loop d c (tile # nextTile # rest) st)
       \<and> moveTiles [\<lparr>tile_id = i1, tile_value = 2, row = 0, col = 0, isNew = n1, justMerged = m1\<rparr>,
                    \<lparr>tile_id = i2, tile_value = 2, row = 0, col = 1, isNew = n2, justMerged = m2\<rparr>]
                   Left
           = Inr \<lparr>tiles = [\<lparr>tile_id = i1, tile_value = 4, row = 0, col = 0, isNew = False,
                              justMerged = True\<rparr>],
                   moved = True, scoreGained = 4\<rparr>
       \<and> moveTiles [\<lparr>tile_id = i1, tile_value = 2, row = 0, col = 0, isNew = n1, justMerged = m1\<rparr>,
                    \<lparr>tile_id = i2, tile_value = 2, row = 0, col = 1, isNew = n2, justMerged = m2\<rparr>]
                   Right
           = Inr \<lparr>tiles = [\<lparr>tile_id = i2, tile_value = 4, row = 0, col = 3, isNew = False,
                              justMerged = True\<rparr>],
                   moved = True, scoreGained = 4\<rparr>
       \<and> moveTiles [\<lparr>tile_id = i1, tile_value = 2, row = 0, col = 0, isNew = n1, justMerged = m1\<rparr>,
                    \<lparr>tile_id = i2, tile_value = 2, row = 1, col = 0, isNew = n2, justMerged = m2\<rparr>]
                   Up
           = Inr \<lparr>tiles = [\<lparr>tile_id = i1, tile_value = 4, row = 0, col = 0, isNew = False,
                              justMerged = True\<rparr>],
                   moved = True, scoreGained = 4\<rparr>
       \<and> moveTiles [\<lparr>tile_id = i1, tile_value = 2, row = 0, col = 0, isNew = n1, justMerged = m1\<rparr>,
                    \<lparr>tile_id = i2, tile_value = 2, row = 1, col = 0, isNew = n2, justMerged = m2\<rparr>]
                   Down
           = Inr \<lparr>tiles = [\<lparr>tile_id = i2, tile_value = 4, row = 3, col = 0, isNew = False,
                              justMerged = True\<rparr>],
                   moved = True, scoreGained = 4\<rparr>"
proof -
  have step: "specLineCollapse target k (tile # nextTile # rest)
           = \<lparr>line_tiles = tile\<lparr>tile_value := 2 * tile_value tile, justMerged := True,
                                  row := fst (target k), col := snd (target k)\<rparr>
                               # line_tiles (specLineCollapse target (k + 1) rest),
              line_moved = True,
              line_score = 2 * tile_value tile + line_score (specLineCollapse target (k + 1) rest)\<rparr>"
    using assms by simp
  have rows: "slideRow [tile, nextTile] r Left
              = \<lparr>line_tiles = [tile\<lparr>tile_value := 2 * tile_value tile, justMerged := True,
                                      col := 0, row := r\<rparr>],
                 line_moved = True, line_score = 2 * tile_value tile\<rparr>
          \<and> slideRow [tile, nextTile] r Right
              = \<lparr>line_tiles = [nextTile\<lparr>tile_value := 2 * tile_value tile, justMerged := True,
                                          col := 3, row := r\<rparr>],
                 line_moved = True, line_score = 2 * tile_value tile\<rparr>"
    if "col tile < col nextTile"
    using that assms
    by (simp add: slideRow_def slideRow_body_def scanStart_def BOARD_SIZE_def Let_def)
  have columns: "slideColumn [tile, nextTile] c Up
              = \<lparr>line_tiles = [tile\<lparr>tile_value := 2 * tile_value tile, justMerged := True,
                                      row := 0, col := c\<rparr>],
                 line_moved = True, line_score = 2 * tile_value tile\<rparr>
          \<and> slideColumn [tile, nextTile] c Down
              = \<lparr>line_tiles = [nextTile\<lparr>tile_value := 2 * tile_value tile, justMerged := True,
                                          row := 3, col := c\<rparr>],
                 line_moved = True, line_score = 2 * tile_value tile\<rparr>"
    if "row tile < row nextTile"
    using that assms
    by (simp add: slideColumn_def slideColumn_body_def scanStart_def BOARD_SIZE_def Let_def)
  have loops: "result (slideRow_loop d r (tile # nextTile # rest) st)
           = result st
             @ [tile\<lparr>tile_value := 2 * tile_value tile, justMerged := True,
                     col := (if d = Left then targetIndex st else BOARD_SIZE - 1 - targetIndex st),
                     row := r\<rparr>]
             @ result (slideRow_loop d r rest (scanAt (targetIndex st + 1)))
       \<and> scan_score (slideRow_loop d r (tile # nextTile # rest) st)
           = scan_score st + 2 * tile_value tile
             + scan_score (slideRow_loop d r rest (scanAt (targetIndex st + 1)))
       \<and> scan_moved (slideRow_loop d r (tile # nextTile # rest) st)
       \<and> result (slideColumn_loop d c (tile # nextTile # rest) st)
           = result st
             @ [tile\<lparr>tile_value := 2 * tile_value tile, justMerged := True,
                     row := (if d = Up then targetIndex st else BOARD_SIZE - 1 - targetIndex st),
                     col := c\<rparr>]
             @ result (slideColumn_loop d c rest (scanAt (targetIndex st + 1)))
       \<and> scan_score (slideColumn_loop d c (tile # nextTile # rest) st)
           = scan_score st + 2 * tile_value tile
             + scan_score (slideColumn_loop d c rest (scanAt (targetIndex st + 1)))
       \<and> scan_moved (slideColumn_loop d c (tile # nextTile # rest) st)"
    unfolding slideRow_loop_merge[OF assms] slideColumn_loop_merge[OF assms]
    by (simp add: slideRow_body_def slideColumn_body_def Let_def)
  have left: "moveTiles [\<lparr>tile_id = i1, tile_value = 2, row = 0, col = 0, isNew = n1, justMerged = m1\<rparr>,
                    \<lparr>tile_id = i2, tile_value = 2, row = 0, col = 1, isNew = n2, justMerged = m2\<rparr>]
                   Left
           = Inr \<lparr>tiles = [\<lparr>tile_id = i1, tile_value = 4, row = 0, col = 0, isNew = False,
                              justMerged = True\<rparr>],
                   moved = True, scoreGained = 4\<rparr>"
    by (simp add: move_defs)
  have right: "moveTiles [\<lparr>tile_id = i1, tile_value = 2, row = 0, col = 0, isNew = n1, justMerged = m1\<rparr>,
                    \<lparr>tile_id = i2, tile_value = 2, row = 0, col = 1, isNew = n2, justMerged = m2\<rparr>]
                   Right
           = Inr \<lparr>tiles = [\<lparr>tile_id = i2, tile_value = 4, row = 0, col = 3, isNew = False,
                              justMerged = True\<rparr>],
                   moved = True, scoreGained = 4\<rparr>"
    by (simp add: move_defs)
  have up: "moveTiles [\<lparr>tile_id = i1, tile_value = 2, row = 0, col = 0, isNew = n1, justMerged = m1\<rparr>,
                    \<lparr>tile_id = i2, tile_value = 2, row = 1, col = 0, isNew = n2, justMerged = m2\<rparr>]
                   Up
           = Inr \<lparr>tiles = [\<lparr>tile_id = i1, tile_value = 4, row = 0, col = 0, isNew = False,
                              justMerged = True\<rparr>],
                   moved = True, scoreGained = 4\<rparr>"
    by (simp add: move_defs)
  have down: "moveTiles [\<lparr>tile_id = i1, tile_value = 2, row = 0, col = 0, isNew = n1, justMerged = m1\<rparr>,
                    \<lparr>tile_id = i2, tile_value = 2, row = 1, col = 0, isNew = n2, justMerged = m2\<rparr>]
                   Down
           = Inr \<lparr>tiles = [\<lparr>tile_id = i2, tile_value = 4, row = 3, col = 0, isNew = False,
                              justMerged = True\<rparr>],
                   moved = True, scoreGained = 4\<rparr>"
    by (simp add: move_defs)
  note fn = slideRow_specLineCollapse[of xs r d] slideColumn_specLineCollapse[of xs c d]
  from rows have rows': "col tile < col nextTile \<longrightarrow>
            slideRow [tile, nextTile] r Left
              = \<lparr>line_tiles = [tile\<lparr>tile_value := 2 * tile_value tile, justMerged := True,
                                      col := 0, row := r\<rparr>],
                 line_moved = True, line_score = 2 * tile_value tile\<rparr>
          \<and> slideRow [tile, nextTile] r Right
              = \<lparr>line_tiles = [nextTile\<lparr>tile_value := 2 * tile_value tile, justMerged := True,
                                          col := 3, row := r\<rparr>],
                 line_moved = True, line_score = 2 * tile_value tile\<rparr>"
    by (rule impI)
  from columns have columns': "row tile < row nextTile \<longrightarrow>
            slideColumn [tile, nextTile] c Up
              = \<lparr>line_tiles = [tile\<lparr>tile_value := 2 * tile_value tile, justMerged := True,
                                      row := 0, col := c\<rparr>],
                 line_moved = True, line_score = 2 * tile_value tile\<rparr>
          \<and> slideColumn [tile, nextTile] c Down
              = \<lparr>line_tiles = [nextTile\<lparr>tile_value := 2 * tile_value tile, justMerged := True,
                                          row := 3, col := c\<rparr>],
                 line_moved = True, line_score = 2 * tile_value tile\<rparr>"
    by (rule impI)
  show ?thesis
    by (rule conjI[OF fn(1) conjI[OF fn(2) conjI[OF step conjI[OF rows' conjI[OF columns'
          conjI[OF loops[THEN conjunct1] conjI[OF loops[THEN conjunct2, THEN conjunct1]
          conjI[OF loops[THEN conjunct2, THEN conjunct2, THEN conjunct1]
          conjI[OF loops[THEN conjunct2, THEN conjunct2, THEN conjunct2, THEN conjunct1]
          conjI[OF loops[THEN conjunct2, THEN conjunct2, THEN conjunct2, THEN conjunct2, THEN conjunct1]
          conjI[OF loops[THEN conjunct2, THEN conjunct2, THEN conjunct2, THEN conjunct2, THEN conjunct2]
          conjI[OF left conjI[OF right conjI[OF up down]]]]]]]]]]]]]])
qed

theorem line_collapse_merge_witness:
  "tile_value (tileAt 2 8 1 3) = tile_value (tileAt 1 8 1 1)
   \<and> col (tileAt 1 8 1 1) < col (tileAt 2 8 1 3)
   \<and> slideRow [tileAt 1 8 1 1, tileAt 2 8 1 3] 1 Left
       = \<lparr>line_tiles = [(tileAt 1 16 1 0)\<lparr>justMerged := True\<rparr>],
          line_moved = True, line_score = 16\<rparr>
   \<and> slideRow [tileAt 1 8 1 1, tileAt 2 8 1 3] 1 Right
       = \<lparr>line_tiles = [(tileAt 2 16 1 3)\<lparr>justMerged := True\<rparr>],
          line_moved = True, line_score = 16\<rparr>
   \<and> result (slideRow_loop Left 1 [tileAt 1 8 1 1, tileAt 2 8 1 3] scanStart)
       = [(tileAt 1 16 1 0)\<lparr>justMerged := True\<rparr>]
   \<and> scan_score (slideRow_loop Left 1 [tileAt 1 8 1 1, tileAt 2 8 1 3] scanStart) = 16
   \<and> tile_value (tileAt 4 4 2 2) = tile_value (tileAt 3 4 0 2)
   \<and> row (tileAt 3 4 0 2) < row (tileAt 4 4 2 2)
   \<and> slideColumn [tileAt 3 4 0 2, tileAt 4 4 2 2] 2 Up
       = \<lparr>line_tiles = [(tileAt 3 8 0 2)\<lparr>justMerged := True\<rparr>],
          line_moved = True, line_score = 8\<rparr>
   \<and> slideColumn [tileAt 3 4 0 2, tileAt 4 4 2 2] 2 Down
       = \<lparr>line_tiles = [(tileAt 4 8 3 2)\<lparr>justMerged := True\<rparr>],
          line_moved = True, line_score = 8\<rparr>"
proof -
  have h1: "tile_value (tileAt 2 8 1 3) = tile_value (tileAt 1 8 1 1)"
    and h2: "tile_value (tileAt 4 4 2 2) = tile_value (tileAt 3 4 0 2)"
    by (simp_all add: tileAt_def)
  note rowInst = line_collapse_merge[OF h1, where r = 1 and d = Left and st = scanStart and rest = "[]"]
  note colInst = line_collapse_merge[OF h2, where c = 2]
  have less: "col (tileAt 1 8 1 1) < col (tileAt 2 8 1 3)" "row (tileAt 3 4 0 2) < row (tileAt 4 4 2 2)"
    by (simp_all add: tileAt_def)
  from rowInst colInst less h1 h2 show ?thesis
    by (simp add: tileAt_def scanStart_def scanAt_def)
qed

section \<open>No chain of merges\<close>

text \<open>
  Claim C2.  In the collapse of a row or of a column, the sorted line falls into groups of
  one tile or of two neighbouring tiles of the same value, every tile in exactly one group,
  and the output has one tile for each group, in order: with the identifier of the group's
  first tile, the sum of the group's values, and \<open>justMerged\<close> set exactly for a group of
  two.  So a tile takes part in at most one merge, and a tile that a merge produced is not
  merged again.  Every tile of the output carries the identifier of a tile of the input
  and has that tile's value or twice that value, and the output has at least half as many
  tiles as the input.  A row of four tiles of one value \<open>v\<close> at the columns 0 to 3, moved
  left, becomes two tiles of value \<open>2 * v\<close> at the columns 0 and 1; for \<open>[2, 2, 2, 2]\<close> that
  is \<open>[4, 4]\<close> and not \<open>[8]\<close>.  A line \<open>[v, v, 2 * v]\<close> becomes \<open>[2 * v, 2 * v]\<close>: the merged
  tile and its neighbour of the same value stay apart.
\<close>

theorem merge_no_chain:
  "concat (mergeBlocks s) = s
   \<and> (\<forall>b\<in>set (mergeBlocks s).
         (\<exists>t. b = [t]) \<or> (\<exists>t n. b = [t, n] \<and> tile_value n = tile_value t))
   \<and> map (\<lambda>u. (tile_id u, tile_value u, justMerged u)) (line_tiles (slideRow xs r d))
       = map (\<lambda>b. (tile_id (hd b), sum_list (map tile_value b), length b = 2))
           (mergeBlocks (if d = Left then sort_key col xs else sort_key (\<lambda>t. - col t) xs))
   \<and> map (\<lambda>u. (tile_id u, tile_value u, justMerged u)) (line_tiles (slideColumn xs c d))
       = map (\<lambda>b. (tile_id (hd b), sum_list (map tile_value b), length b = 2))
           (mergeBlocks (if d = Up then sort_key row xs else sort_key (\<lambda>t. - row t) xs))
   \<and> (\<forall>u\<in>set (line_tiles (slideRow xs r d)). \<exists>t\<in>set xs. tile_id u = tile_id t
        \<and> (tile_value u = tile_value t \<or> tile_value u = 2 * tile_value t))
   \<and> length xs \<le> 2 * length (line_tiles (slideRow xs r d))
   \<and> (\<forall>u\<in>set (line_tiles (slideColumn xs c d)). \<exists>t\<in>set xs. tile_id u = tile_id t
        \<and> (tile_value u = tile_value t \<or> tile_value u = 2 * tile_value t))
   \<and> length xs \<le> 2 * length (line_tiles (slideColumn xs c d))
   \<and> (col t0 = 0 \<and> col t1 = 1 \<and> col t2 = 2 \<and> col t3 = 3
        \<and> tile_value t1 = tile_value t0 \<and> tile_value t2 = tile_value t0
        \<and> tile_value t3 = tile_value t0 \<longrightarrow>
        slideRow [t0, t1, t2, t3] r Left
          = \<lparr>line_tiles = [t0\<lparr>tile_value := 2 * tile_value t0, justMerged := True, col := 0, row := r\<rparr>,
                           t2\<lparr>tile_value := 2 * tile_value t0, justMerged := True, col := 1, row := r\<rparr>],
             line_moved = True, line_score = 4 * tile_value t0\<rparr>)
   \<and> (col t0 = 0 \<and> col t1 = 1 \<and> col t2 = 2
        \<and> tile_value t1 = tile_value t0 \<and> tile_value t2 = 2 * tile_value t0 \<longrightarrow>
        slideRow [t0, t1, t2] r Left
          = \<lparr>line_tiles = [t0\<lparr>tile_value := 2 * tile_value t0, justMerged := True, col := 0, row := r\<rparr>,
                           t2\<lparr>justMerged := False, col := 1, row := r\<rparr>],
             line_moved = True, line_score = 2 * tile_value t0\<rparr>)
   \<and> (row t0 = 0 \<and> row t1 = 1 \<and> row t2 = 2
        \<and> tile_value t1 = tile_value t0 \<and> tile_value t2 = 2 * tile_value t0 \<longrightarrow>
        slideColumn [t0, t1, t2] c Up
          = \<lparr>line_tiles = [t0\<lparr>tile_value := 2 * tile_value t0, justMerged := True, row := 0, col := c\<rparr>,
                           t2\<lparr>justMerged := False, row := 1, col := c\<rparr>],
             line_moved = True, line_score = 2 * tile_value t0\<rparr>)
   \<and> moveTiles [\<lparr>tile_id = i0, tile_value = 2, row = 0, col = 0, isNew = False, justMerged = False\<rparr>,
                \<lparr>tile_id = i1, tile_value = 2, row = 0, col = 1, isNew = False, justMerged = False\<rparr>,
                \<lparr>tile_id = i2, tile_value = 2, row = 0, col = 2, isNew = False, justMerged = False\<rparr>,
                \<lparr>tile_id = i3, tile_value = 2, row = 0, col = 3, isNew = False, justMerged = False\<rparr>]
               Left
       = Inr \<lparr>tiles = [\<lparr>tile_id = i0, tile_value = 4, row = 0, col = 0, isNew = False,
                          justMerged = True\<rparr>,
                        \<lparr>tile_id = i2, tile_value = 4, row = 0, col = 1, isNew = False,
                          justMerged = True\<rparr>],
              moved = True, scoreGained = 8\<rparr>"
proof (intro conjI ballI impI)
  show "concat (mergeBlocks s) = s" by (rule concat_mergeBlocks)
next
  fix b assume "b \<in> set (mergeBlocks s)"
  then show "(\<exists>t. b = [t]) \<or> (\<exists>t n. b = [t, n] \<and> tile_value n = tile_value t)"
    by (rule mergeBlocks_shape)
next
  show "map (\<lambda>u. (tile_id u, tile_value u, justMerged u)) (line_tiles (slideRow xs r d))
       = map (\<lambda>b. (tile_id (hd b), sum_list (map tile_value b), length b = 2))
           (mergeBlocks (if d = Left then sort_key col xs else sort_key (\<lambda>t. - col t) xs))"
    unfolding slideRow_specLineCollapse by (rule specLineCollapse_blocks)
next
  show "map (\<lambda>u. (tile_id u, tile_value u, justMerged u)) (line_tiles (slideColumn xs c d))
       = map (\<lambda>b. (tile_id (hd b), sum_list (map tile_value b), length b = 2))
           (mergeBlocks (if d = Up then sort_key row xs else sort_key (\<lambda>t. - row t) xs))"
    unfolding slideColumn_specLineCollapse by (rule specLineCollapse_blocks)
next
  fix u assume "u \<in> set (line_tiles (slideRow xs r d))"
  from slideRow_origin[OF this]
  show "\<exists>t\<in>set xs. tile_id u = tile_id t
        \<and> (tile_value u = tile_value t \<or> tile_value u = 2 * tile_value t)"
    by blast
next
  show "length xs \<le> 2 * length (line_tiles (slideRow xs r d))"
    by (rule slideRow_length_lower)
next
  fix u assume "u \<in> set (line_tiles (slideColumn xs c d))"
  from slideColumn_origin[OF this]
  show "\<exists>t\<in>set xs. tile_id u = tile_id t
        \<and> (tile_value u = tile_value t \<or> tile_value u = 2 * tile_value t)"
    by blast
next
  show "length xs \<le> 2 * length (line_tiles (slideColumn xs c d))"
    by (rule slideColumn_length_lower)
next
  assume "col t0 = 0 \<and> col t1 = 1 \<and> col t2 = 2 \<and> col t3 = 3
        \<and> tile_value t1 = tile_value t0 \<and> tile_value t2 = tile_value t0
        \<and> tile_value t3 = tile_value t0"
  then show "slideRow [t0, t1, t2, t3] r Left
          = \<lparr>line_tiles = [t0\<lparr>tile_value := 2 * tile_value t0, justMerged := True, col := 0, row := r\<rparr>,
                           t2\<lparr>tile_value := 2 * tile_value t0, justMerged := True, col := 1, row := r\<rparr>],
             line_moved = True, line_score = 4 * tile_value t0\<rparr>"
    by (simp add: slideRow_def slideRow_body_def scanStart_def Let_def)
next
  assume "col t0 = 0 \<and> col t1 = 1 \<and> col t2 = 2
        \<and> tile_value t1 = tile_value t0 \<and> tile_value t2 = 2 * tile_value t0"
  then show "slideRow [t0, t1, t2] r Left
          = \<lparr>line_tiles = [t0\<lparr>tile_value := 2 * tile_value t0, justMerged := True, col := 0, row := r\<rparr>,
                           t2\<lparr>justMerged := False, col := 1, row := r\<rparr>],
             line_moved = True, line_score = 2 * tile_value t0\<rparr>"
    by (simp add: slideRow_def slideRow_body_def scanStart_def Let_def)
next
  assume "row t0 = 0 \<and> row t1 = 1 \<and> row t2 = 2
        \<and> tile_value t1 = tile_value t0 \<and> tile_value t2 = 2 * tile_value t0"
  then show "slideColumn [t0, t1, t2] c Up
          = \<lparr>line_tiles = [t0\<lparr>tile_value := 2 * tile_value t0, justMerged := True, row := 0, col := c\<rparr>,
                           t2\<lparr>justMerged := False, row := 1, col := c\<rparr>],
             line_moved = True, line_score = 2 * tile_value t0\<rparr>"
    by (simp add: slideColumn_def slideColumn_body_def scanStart_def Let_def)
next
  show "moveTiles [\<lparr>tile_id = i0, tile_value = 2, row = 0, col = 0, isNew = False, justMerged = False\<rparr>,
                \<lparr>tile_id = i1, tile_value = 2, row = 0, col = 1, isNew = False, justMerged = False\<rparr>,
                \<lparr>tile_id = i2, tile_value = 2, row = 0, col = 2, isNew = False, justMerged = False\<rparr>,
                \<lparr>tile_id = i3, tile_value = 2, row = 0, col = 3, isNew = False, justMerged = False\<rparr>]
               Left
       = Inr \<lparr>tiles = [\<lparr>tile_id = i0, tile_value = 4, row = 0, col = 0, isNew = False,
                          justMerged = True\<rparr>,
                        \<lparr>tile_id = i2, tile_value = 4, row = 0, col = 1, isNew = False,
                          justMerged = True\<rparr>],
              moved = True, scoreGained = 8\<rparr>"
    by (simp add: move_defs)
qed

theorem merge_no_chain_witness:
  "col (tileAt 1 2 0 0) = 0 \<and> col (tileAt 2 2 0 1) = 1 \<and> col (tileAt 3 2 0 2) = 2
   \<and> col (tileAt 4 2 0 3) = 3
   \<and> tile_value (tileAt 2 2 0 1) = tile_value (tileAt 1 2 0 0)
   \<and> tile_value (tileAt 3 2 0 2) = tile_value (tileAt 1 2 0 0)
   \<and> tile_value (tileAt 4 2 0 3) = tile_value (tileAt 1 2 0 0)
   \<and> slideRow [tileAt 1 2 0 0, tileAt 2 2 0 1, tileAt 3 2 0 2, tileAt 4 2 0 3] 0 Left
       = \<lparr>line_tiles = [(tileAt 1 4 0 0)\<lparr>justMerged := True\<rparr>, (tileAt 3 4 0 1)\<lparr>justMerged := True\<rparr>],
          line_moved = True, line_score = 8\<rparr>
   \<and> length [tileAt 1 2 0 0, tileAt 2 2 0 1, tileAt 3 2 0 2, tileAt 4 2 0 3]
       \<le> 2 * length (line_tiles
             (slideRow [tileAt 1 2 0 0, tileAt 2 2 0 1, tileAt 3 2 0 2, tileAt 4 2 0 3] 0 Left))
   \<and> mergeBlocks [tileAt 1 4 0 0, tileAt 2 2 0 1, tileAt 3 2 0 2, tileAt 4 16 0 3]
       = [[tileAt 1 4 0 0], [tileAt 2 2 0 1, tileAt 3 2 0 2], [tileAt 4 16 0 3]]
   \<and> map (\<lambda>u. (tile_id u, tile_value u, justMerged u))
         (line_tiles (slideRow [tileAt 1 4 0 0, tileAt 2 2 0 1, tileAt 3 2 0 2, tileAt 4 16 0 3]
                        0 Left))
       = [(1, 4, False), (2, 4, True), (4, 16, False)]"
proof -
  note four = merge_no_chain
    [where xs = "[tileAt 1 2 0 0, tileAt 2 2 0 1, tileAt 3 2 0 2, tileAt 4 2 0 3]"
       and r = 0 and d = Left and c = 0
       and ?t0.0 = "tileAt 1 2 0 0" and ?t1.0 = "tileAt 2 2 0 1" and ?t2.0 = "tileAt 3 2 0 2"
       and ?t3.0 = "tileAt 4 2 0 3"]
  note chain = merge_no_chain
    [where xs = "[tileAt 1 4 0 0, tileAt 2 2 0 1, tileAt 3 2 0 2, tileAt 4 16 0 3]"
       and r = 0 and d = Left and c = 0
       and s = "[tileAt 1 4 0 0, tileAt 2 2 0 1, tileAt 3 2 0 2, tileAt 4 16 0 3]"]
  from four chain show ?thesis
    by (simp add: tileAt_def)
qed

section \<open>A move that changes nothing\<close>

text \<open>
  Claim C3.  When \<open>moveTiles\<close> reports \<open>moved = False\<close>, the tiles it returns are the tiles
  it was given, in the same order, with the same identifiers, values and positions and with
  \<open>isNew\<close> and \<open>justMerged\<close> cleared, and the score gained is 0; \<open>handleMove\<close> on a session
  with that board then returns the session as it was: no tile is spawned, and the score,
  the best score, \<open>hasWon\<close> and \<open>gameOver\<close> keep their values.
\<close>

theorem noop_move:
  assumes "moveTiles ts d = Inr res" and "\<not> moved res"
  shows "tiles res = map (\<lambda>t. t\<lparr>isNew := False, justMerged := False\<rparr>) ts
       \<and> scoreGained res = 0
       \<and> (\<forall>s pick lt09. s_tiles s = ts \<longrightarrow> handleMove s d pick lt09 = Inr s)"
proof -
  have r: "res = \<lparr>tiles = map clearFlags ts, moved = False, scoreGained = 0\<rparr>"
    using assms by (auto simp: moveTiles_def Let_def split: sum.splits if_splits)
  have "handleMove s d pick lt09 = Inr s" if "s_tiles s = ts" for s pick lt09
    using that assms by (simp add: handleMove_def)
  then show ?thesis
    by (simp add: r clearFlags_def)
qed

theorem noop_move_witness:
  "moveTiles [\<lparr>tile_id = 1, tile_value = 2, row = 0, col = 3, isNew = True, justMerged = False\<rparr>] Right
     = Inr \<lparr>tiles = [\<lparr>tile_id = 1, tile_value = 2, row = 0, col = 3, isNew = False,
                        justMerged = False\<rparr>],
            moved = False, scoreGained = 0\<rparr>
   \<and> handleMove
         \<lparr>s_tiles = [\<lparr>tile_id = 1, tile_value = 2, row = 0, col = 3, isNew = True,
                       justMerged = False\<rparr>],
          score = 8, bestScore = 20, gameOver = False, hasWon = False, tileIdRef = 1\<rparr> Right 0 True
     = Inr \<lparr>s_tiles = [\<lparr>tile_id = 1, tile_value = 2, row = 0, col = 3, isNew = True,
                           justMerged = False\<rparr>],
              score = 8, bestScore = 20, gameOver = False, hasWon = False, tileIdRef = 1\<rparr>"
proof -
  let ?t = "\<lparr>tile_id = 1, tile_value = 2, row = 0, col = 3, isNew = True, justMerged = False\<rparr>"
  let ?res = "\<lparr>tiles = [\<lparr>tile_id = 1, tile_value = 2, row = 0, col = 3, isNew = False,
                          justMerged = False\<rparr>],
              moved = False, scoreGained = 0\<rparr>"
  have m: "moveTiles [?t] Right = Inr ?res"
    by (simp add: move_defs)
  have n: "\<not> moved ?res" by simp
  from noop_move[OF m n] m show ?thesis by simp
qed

section \<open>Conservation of the tile values\<close>

text \<open>
  Claim C4.  On a well-formed board \<open>moveTiles\<close> returns a result for every direction, and
  the values of the tiles it returns (before any spawn) add up to the same sum as the
  values of the tiles it was given.
\<close>

theorem conservation_on_collapse:
  assumes "wellFormed ts"
  shows "\<exists>res. moveTiles ts d = Inr res
           \<and> sum_list (map tile_value (tiles res)) = sum_list (map tile_value ts)"
proof -
  obtain g where g: "placeTiles (map clearFlags ts) emptyGrid = Inr g"
    using wellFormed_rows[OF assms] by (rule moveTiles_defined)
  have wf: "wellFormed (map clearFlags ts)"
    using assms by (simp add: wellFormed_clearFlags)
  let ?out = "concat (map (\<lambda>i. line_tiles (collapsedLine g d i)) indices)"
  have "sum_list (map tile_value (sort_key canonicalKey ?out)) = sum_list (map tile_value ?out)"
    by (rule sum_values_perm) simp
  also have "\<dots> = sum_list (map tile_value (concat (map (lineTilesOf g d) indices)))"
    by (simp add: indices_eq collapsedLine_sum)
  also have "\<dots> = sum_list (map tile_value (map clearFlags ts))"
    by (rule sum_values_perm) (rule lineTiles_perm[OF g wf])
  also have "\<dots> = sum_list (map tile_value ts)"
    by (simp only: values_clearFlags)
  finally have moved_case: "sum_list (map tile_value (sort_key canonicalKey ?out))
                              = sum_list (map tile_value ts)" .
  show ?thesis
    unfolding moveTiles_eq[OF g]
    by (cases "\<exists>i\<in>set indices. line_moved (collapsedLine g d i)")
       (simp_all only: if_True if_False moved_case values_clearFlags
          MoveResult.simps sum.inject simp_thms ex_simps)
qed

theorem conservation_on_collapse_witness:
  "wellFormed [\<lparr>tile_id = 1, tile_value = 2, row = 0, col = 0, isNew = False, justMerged = False\<rparr>,
               \<lparr>tile_id = 2, tile_value = 2, row = 0, col = 1, isNew = False, justMerged = False\<rparr>,
               \<lparr>tile_id = 3, tile_value = 4, row = 1, col = 2, isNew = True, justMerged = False\<rparr>]
   \<and> (\<exists>res. moveTiles
              [\<lparr>tile_id = 1, tile_value = 2, row = 0, col = 0, isNew = False, justMerged = False\<rparr>,
               \<lparr>tile_id = 2, tile_value = 2, row = 0, col = 1, isNew = False, justMerged = False\<rparr>,
               \<lparr>tile_id = 3, tile_value = 4, row = 1, col = 2, isNew = True, justMerged = False\<rparr>]
              Left = Inr res
          \<and> sum_list (map tile_value (tiles res)) = 8)"
  using conservation_on_collapse
    [of "[\<lparr>tile_id = 1, tile_value = 2, row = 0, col = 0, isNew = False, justMerged = False\<rparr>,
          \<lparr>tile_id = 2, tile_value = 2, row = 0, col = 1, isNew = False, justMerged = False\<rparr>,
          \<lparr>tile_id = 3, tile_value = 4, row = 1, col = 2, isNew = True, justMerged = False\<rparr>]" Left]
  by (simp add: wellFormed_def inRange_def coords_def BOARD_SIZE_def)

section \<open>The occupancy invariant\<close>

text \<open>
  Claim C5.  Every board reachable from the initial setup by \<open>moveTiles\<close> and
  \<open>addRandomTile\<close> is well-formed: every tile has its row and its column in \<open>[0, 4)\<close>, and
  no two tiles are on the same cell.  Both \<open>moveTiles\<close> and \<open>addRandomTile\<close> return a
  well-formed board when they are given one.
\<close>

theorem occupancy_invariant:
  "(reachableBoard ts \<longrightarrow> wellFormed ts)
   \<and> (wellFormed ts \<and> moveTiles ts d = Inr res \<longrightarrow> wellFormed (tiles res))
   \<and> (wellFormed ts \<and> addRandomTile ts idRef pick lt09 = Inr (ts', idRef') \<longrightarrow> wellFormed ts')"
proof -
  have "wellFormed us" if "reachableBoard us" for us
    using that
  proof (induction rule: reachableBoard.induct)
    case (initial idRef rnd ts idRef')
    have "wellFormed []" by (simp add: wellFormed_def)
    from this initial show ?case
      unfolding generateInitialTiles_def by (rule generateInitialTiles_loop_wellFormed)
  next
    case (move ts d res)
    then show ?case by (simp add: moveTiles_wellFormed)
  next
    case (spawn ts idRef pick lt09 ts' idRef')
    then show ?case by (simp add: addRandomTile_wellFormed)
  qed
  then show ?thesis
    using moveTiles_wellFormed[of ts d res] addRandomTile_wellFormed[of ts idRef pick lt09 ts' idRef']
    by blast
qed

theorem occupancy_invariant_witness:
  "reachableBoard exampleStart \<and> wellFormed exampleStart
   \<and> moveTiles exampleStart Left
       = Inr \<lparr>tiles = [\<lparr>tile_id = 1, tile_value = 4, row = 0, col = 0, isNew = False,
                          justMerged = True\<rparr>],
              moved = True, scoreGained = 4\<rparr>
   \<and> wellFormed [\<lparr>tile_id = 1, tile_value = 4, row = 0, col = 0, isNew = False, justMerged = True\<rparr>]
   \<and> addRandomTile exampleStart 2 0 False
       = Inr (exampleStart @ [\<lparr>tile_id = 3, tile_value = 4, row = 0, col = 2, isNew = True,
                                 justMerged = False\<rparr>], 3)
   \<and> wellFormed (exampleStart @ [\<lparr>tile_id = 3, tile_value = 4, row = 0, col = 2, isNew = True,
                                   justMerged = False\<rparr>])"
proof -
  have r: "reachableBoard exampleStart"
    using exampleStart_generated by (rule reachableBoard.initial)
  have s: "addRandomTile exampleStart 2 0 False
       = Inr (exampleStart @ [\<lparr>tile_id = 3, tile_value = 4, row = 0, col = 2, isNew = True,
                                 justMerged = False\<rparr>], 3)"
    by (simp add: addRandomTile_def getEmptyPositions_def cells_eq BOARD_SIZE_def exampleStart_def)
  from occupancy_invariant[of exampleStart Left
      "\<lparr>tiles = [\<lparr>tile_id = 1, tile_value = 4, row = 0, col = 0, isNew = False,
                          justMerged = True\<rparr>], moved = True, scoreGained = 4\<rparr>"
      2 0 False
      "exampleStart @ [\<lparr>tile_id = 3, tile_value = 4, row = 0, col = 2, isNew = True,
                                 justMerged = False\<rparr>]" 3]
    r s exampleStart_moved
  show ?thesis by simp
qed

section \<open>The terminal-state test\<close>

text \<open>
  Claim C6.  \<open>hasAvailableMoves\<close> returns true for every board with fewer than 16 tiles.  On
  a full board (16 tiles, one on each cell) it returns true exactly when two tiles on
  cells that share an edge, in any of the four directions, have the same value: looking
  only at the right and the lower neighbour of every cell misses no pair.  So a full board
  without such a pair yields false, and a full board with one yields true.
\<close>

theorem terminal_state_test:
  "(length ts < 16 \<longrightarrow> hasAvailableMoves ts = Inr True)
   \<and> (wellFormed us \<and> length us = 16 \<longrightarrow>
        hasAvailableMoves us
          = Inr (\<exists>a\<in>set us. \<exists>b\<in>set us. adjacent a b \<and> tile_value a = tile_value b))"
proof (intro conjI impI)
  assume "length ts < 16"
  then show "hasAvailableMoves ts = Inr True"
    by (simp add: hasAvailableMoves_def BOARD_SIZE_def)
next
  assume "wellFormed us \<and> length us = 16"
  then have wf: "wellFormed us" and full: "length us = 16" by simp_all
  obtain g where g: "placeTiles us emptyGrid = Inr g"
    using placeTiles_total[OF wellFormed_rows[OF wf]] by blast
  have inside: "coords t \<in> set cells" if "t \<in> set us" for t
    using wf that by (simp add: cells_inside wellFormed_coords)
  have "list_ex (cellHasMove g) cells
          \<longleftrightarrow> (\<exists>a\<in>set us. \<exists>b\<in>set us. adjacent a b \<and> tile_value a = tile_value b)"
    (is "?scan \<longleftrightarrow> ?pair")
  proof
    assume ?scan
    then obtain r c where "cellHasMove g (r, c)"
      by (auto simp add: list_ex_iff)
    then obtain a b where "a \<in> set us" "b \<in> set us" "coords a = (r, c)"
      "tile_value b = tile_value a" "coords b = (r, c + 1) \<or> coords b = (r + 1, c)"
      unfolding cellHasMove_iff[OF g wf] by blast
    then have "adjacent a b \<and> tile_value a = tile_value b"
      by (auto simp add: adjacent_cases coords_def)
    with \<open>a \<in> set us\<close> \<open>b \<in> set us\<close> show ?pair by blast
  next
    assume ?pair
    then obtain a b where a: "a \<in> set us" and b: "b \<in> set us" and adj: "adjacent a b"
      and v: "tile_value a = tile_value b"
      by blast
    from adj consider "coords b = (row a, col a + 1) \<or> coords b = (row a + 1, col a)"
      | "coords a = (row b, col b + 1) \<or> coords a = (row b + 1, col b)"
      unfolding adjacent_cases by blast
    then have "\<exists>p\<in>set cells. cellHasMove g p"
    proof cases
      case 1
      from v have "tile_value b = tile_value a" by simp
      from cellHasMove_neighbour[OF g wf a b this 1] have "cellHasMove g (row a, col a)" .
      with inside[OF a] show ?thesis by (auto simp add: coords_def)
    next
      case 2
      from cellHasMove_neighbour[OF g wf b a v 2] have "cellHasMove g (row b, col b)" .
      with inside[OF b] show ?thesis by (auto simp add: coords_def)
    qed
    then show ?scan by (simp add: list_ex_iff)
  qed
  then show "hasAvailableMoves us
          = Inr (\<exists>a\<in>set us. \<exists>b\<in>set us. adjacent a b \<and> tile_value a = tile_value b)"
    using full by (simp add: hasAvailableMoves_def BOARD_SIZE_def g)
qed

theorem terminal_state_test_witness:
  "length [tileAt 1 2 0 0, tileAt 2 2 0 1] < 16
   \<and> hasAvailableMoves [tileAt 1 2 0 0, tileAt 2 2 0 1] = Inr True
   \<and> wellFormed exampleFull \<and> length exampleFull = 16
   \<and> hasAvailableMoves exampleFull = Inr False
   \<and> \<not> (\<exists>a\<in>set exampleFull. \<exists>b\<in>set exampleFull. adjacent a b \<and> tile_value a = tile_value b)"
proof -
  have l: "length exampleFull = 16" by (simp add: exampleFull_def)
  from terminal_state_test[of "[tileAt 1 2 0 0, tileAt 2 2 0 1]" exampleFull]
    exampleFull_wellFormed l exampleFull_stuck
  show ?thesis by simp
qed

section \<open>A spawn after an accepted move finds an empty cell\<close>

text \<open>
  Claim C7.  When \<open>moveTiles\<close> on a well-formed board reports \<open>moved = True\<close>, the board it
  returns has at least one empty cell: \<open>getEmptyPositions\<close> returns a non-empty list, so
  \<open>addRandomTile\<close> does not take its branch for a full board but appends one tile and
  advances the identifier counter, whatever empty cell and value are drawn.
\<close>

theorem spawn_after_move:
  assumes "wellFormed ts" and "moveTiles ts d = Inr res" and "moved res"
  shows "\<exists>ps. getEmptyPositions (tiles res) = Inr ps \<and> ps \<noteq> []
          \<and> (\<forall>idRef pick lt09. pick < length ps \<longrightarrow>
                (\<exists>t. addRandomTile (tiles res) idRef pick lt09 = Inr (tiles res @ [t], idRef + 1)))"
proof -
  obtain g where g: "placeTiles (map clearFlags ts) emptyGrid = Inr g"
    using wellFormed_rows[OF assms(1)] by (rule moveTiles_defined)
  note mv = moveTiles_moved_tiles[OF g assms(2,3)]
  have short: "length (tiles res) < 16"
    using moved_board_short[OF placeTiles_gridOK[OF g] mv(2)] by (simp add: mv(1))
  have "wellFormed (tiles res)"
    using assms(1,2) by (rule moveTiles_wellFormed)
  then have rows: "\<forall>t\<in>set (tiles res). 0 \<le> row t \<and> row t < BOARD_SIZE"
    by (rule wellFormed_rows)
  define ps where "ps = filter (\<lambda>p. p \<notin> coords ` set (tiles res)) cells"
  have e: "getEmptyPositions (tiles res) = Inr ps"
    unfolding ps_def using rows by (rule getEmptyPositions_eq)
  have ne: "ps \<noteq> []"
    unfolding ps_def using short by (rule empty_cell_exists)
  have "\<exists>t. addRandomTile (tiles res) idRef pick lt09 = Inr (tiles res @ [t], idRef + 1)"
    if "pick < length ps" for idRef pick lt09
    using that ne by (simp add: addRandomTile_def e Let_def)
  with e ne show ?thesis by blast
qed

theorem spawn_after_move_witness:
  "wellFormed [\<lparr>tile_id = 1, tile_value = 2, row = 0, col = 3, isNew = True, justMerged = False\<rparr>]
   \<and> moveTiles [\<lparr>tile_id = 1, tile_value = 2, row = 0, col = 3, isNew = True, justMerged = False\<rparr>] Left
       = Inr \<lparr>tiles = [\<lparr>tile_id = 1, tile_value = 2, row = 0, col = 0, isNew = False, justMerged = False\<rparr>],
              moved = True, scoreGained = 0\<rparr>
   \<and> (\<exists>ps. getEmptyPositions [\<lparr>tile_id = 1, tile_value = 2, row = 0, col = 0, isNew = False, justMerged = False\<rparr>]
              = Inr ps \<and> ps \<noteq> [])"
proof -
  let ?ts = "[\<lparr>tile_id = 1, tile_value = 2, row = 0, col = 3, isNew = True, justMerged = False\<rparr>]"
  let ?res = "\<lparr>tiles = [\<lparr>tile_id = 1, tile_value = 2, row = 0, col = 0, isNew = False, justMerged = False\<rparr>],
              moved = True, scoreGained = 0\<rparr>"
  have w: "wellFormed ?ts"
    by (simp add: wellFormed_def inRange_def coords_def BOARD_SIZE_def)
  have m: "moveTiles ?ts Left = Inr ?res"
    by (simp add: move_defs)
  have n: "moved ?res" by simp
  from spawn_after_move[OF w m n] w m show ?thesis by auto
qed

section \<open>The win test\<close>

text \<open>
  Claim C8.  \<open>containsTargetTile\<close> is true exactly when some tile has a value of at least the
  target; so a board with a tile of value 4096 passes the test for the target 2048.
\<close>

theorem win_trigger:
  "containsTargetTile ts target = (\<exists>t\<in>set ts. tile_value t \<ge> target)
   \<and> ((\<exists>t\<in>set ts. tile_value t = 4096) \<longrightarrow> containsTargetTile ts 2048)"
proof -
  have iff: "containsTargetTile us k = (\<exists>t\<in>set us. tile_value t \<ge> k)" for us k
    by (simp add: containsTargetTile_def list_ex_iff)
  have "containsTargetTile ts 2048" if "\<exists>t\<in>set ts. tile_value t = 4096"
  proof -
    from that obtain t where "t \<in> set ts" and "tile_value t = 4096" by blast
    then have "\<exists>t\<in>set ts. tile_value t \<ge> 2048" by force
    then show ?thesis by (simp add: iff)
  qed
  then show ?thesis by (simp add: iff)
qed

theorem win_trigger_witness:
  "(\<exists>t\<in>set [\<lparr>tile_id = 7, tile_value = 4096, row = 2, col = 1, isNew = False, justMerged = True\<rparr>].
      tile_value t = 4096)
   \<and> containsTargetTile
        [\<lparr>tile_id = 7, tile_value = 4096, row = 2, col = 1, isNew = False, justMerged = True\<rparr>] 2048"
  using win_trigger
    [of "[\<lparr>tile_id = 7, tile_value = 4096, row = 2, col = 1, isNew = False, justMerged = True\<rparr>]"
        2048]
  by simp

section \<open>The score never decreases\<close>

text \<open>
  Claim C9.  For every session that the game can reach and every \<open>handleMove\<close> on it, the
  score afterwards is at least the score before.  When the game is over or the move changes
  nothing the session stays as it is; when the move changes the board, the score gained is
  not negative, the new score is the old score plus the score gained, and the best score
  becomes the maximum of its old value and the new score.
\<close>

theorem monotonic_score:
  assumes "reachableSession s" and "handleMove s d pick lt09 = Inr s'"
  shows "score s \<le> score s'
       \<and> (gameOver s \<longrightarrow> s' = s)
       \<and> (\<not> gameOver s \<longrightarrow>
            (\<exists>res. moveTiles (s_tiles s) d = Inr res
               \<and> (\<not> moved res \<longrightarrow> s' = s)
               \<and> (moved res \<longrightarrow> 0 \<le> scoreGained res
                     \<and> score s' = score s + scoreGained res
                     \<and> bestScore s' = max (bestScore s) (score s'))))"
  using assms(2)
proof (cases rule: handleMove_cases)
  case over
  then show ?thesis by simp
next
  case (still res)
  then show ?thesis by simp
next
  case (moved res withNewTile idRef' available)
  from moveTiles_positive[OF reachableSession_positive[OF assms(1)] moved(2)]
  have "0 \<le> scoreGained res" by simp
  with moved show ?thesis by simp
qed

theorem monotonic_score_witness:
  "reachableSession \<lparr>s_tiles = exampleStart, score = 0, bestScore = 0, gameOver = False,
                      hasWon = False, tileIdRef = 2\<rparr>
   \<and> handleMove \<lparr>s_tiles = exampleStart, score = 0, bestScore = 0, gameOver = False,
                   hasWon = False, tileIdRef = 2\<rparr> Left 0 True
       = Inr \<lparr>s_tiles = [\<lparr>tile_id = 1, tile_value = 4, row = 0, col = 0, isNew = False,
                            justMerged = True\<rparr>,
                          \<lparr>tile_id = 3, tile_value = 2, row = 0, col = 1, isNew = True,
                            justMerged = False\<rparr>],
              score = 4, bestScore = 4, gameOver = False, hasWon = False, tileIdRef = 3\<rparr>"
proof -
  let ?s = "\<lparr>s_tiles = exampleStart, score = 0, bestScore = 0, gameOver = False,
             hasWon = False, tileIdRef = 2\<rparr>"
  let ?s' = "\<lparr>s_tiles = [\<lparr>tile_id = 1, tile_value = 4, row = 0, col = 0, isNew = False,
                            justMerged = True\<rparr>,
                          \<lparr>tile_id = 3, tile_value = 2, row = 0, col = 1, isNew = True,
                            justMerged = False\<rparr>],
              score = 4, bestScore = 4, gameOver = False, hasWon = False, tileIdRef = 3\<rparr>"
  have "initialSession (\<lambda>i. (0, True)) = Inr ?s"
    by (simp add: initialSession_def exampleStart_generated)
  then have r: "reachableSession ?s" by (rule reachableSession.start)
  have h: "handleMove ?s Left 0 True = Inr ?s'"
    by (simp add: handleMove_def exampleStart_moved exampleStart_spawned hasAvailableMoves_def
        containsTargetTile_def BOARD_SIZE_def)
  from monotonic_score[OF r h] r h show ?thesis by simp
qed

section \<open>The tile that survives a merge\<close>


end
